theory Spec2Isabelle
  imports Complex_Main "HOL-Library.Multiset"
begin

section \<open>JavaScript numbers and arrays\<close>

text \<open>
  The program is \<^verbatim>\<open>script.js\<close>, a sales simulator whose financial core is
  \<^verbatim>\<open>applyDiscount\<close>, \<^verbatim>\<open>updateValueByINCC\<close>, \<^verbatim>\<open>updateValueByIPCA\<close>,
  \<^verbatim>\<open>calcCashflowForUnit\<close>, \<^verbatim>\<open>calcTIR\<close>, \<^verbatim>\<open>runSimulation\<close>, \<^verbatim>\<open>calcPayback\<close>
  and \<^verbatim>\<open>calcROI\<close>.

  A JavaScript Number is modelled as a real number extended by the three special values
  \<^verbatim>\<open>Infinity\<close>, \<^verbatim>\<open>-Infinity\<close> and \<^verbatim>\<open>NaN\<close>. Arithmetic on the finite values is exact:
  the rounding of IEEE-754 doubles, overflow and the sign of zero are not part of this
  model (a zero divisor is read as \<^verbatim>\<open>+0\<close>, which is what the program produces wherever
  it divides). Rounding is modelled separately, for the one place where the order of
  additions is the question (the aggregation of the per-unit vectors).
\<close>

datatype jsnum = Fin real | PInf | NInf | NaN

fun jadd :: "jsnum \<Rightarrow> jsnum \<Rightarrow> jsnum" where
  "jadd (Fin x) (Fin y) = Fin (x + y)"
| "jadd NaN _ = NaN"
| "jadd _ NaN = NaN"
| "jadd PInf NInf = NaN"
| "jadd NInf PInf = NaN"
| "jadd PInf _ = PInf"
| "jadd _ PInf = PInf"
| "jadd NInf _ = NInf"
| "jadd _ NInf = NInf"

fun jneg :: "jsnum \<Rightarrow> jsnum" where
  "jneg (Fin x) = Fin (- x)"
| "jneg PInf = NInf"
| "jneg NInf = PInf"
| "jneg NaN = NaN"

fun jabs :: "jsnum \<Rightarrow> jsnum" where
  "jabs (Fin x) = Fin \<bar>x\<bar>"
| "jabs PInf = PInf"
| "jabs NInf = PInf"
| "jabs NaN = NaN"

fun jmul :: "jsnum \<Rightarrow> jsnum \<Rightarrow> jsnum" where
  "jmul (Fin x) (Fin y) = Fin (x * y)"
| "jmul NaN _ = NaN"
| "jmul _ NaN = NaN"
| "jmul PInf (Fin y) = (if y = 0 then NaN else if 0 < y then PInf else NInf)"
| "jmul NInf (Fin y) = (if y = 0 then NaN else if 0 < y then NInf else PInf)"
| "jmul (Fin x) PInf = (if x = 0 then NaN else if 0 < x then PInf else NInf)"
| "jmul (Fin x) NInf = (if x = 0 then NaN else if 0 < x then NInf else PInf)"
| "jmul PInf PInf = PInf"
| "jmul PInf NInf = NInf"
| "jmul NInf PInf = NInf"
| "jmul NInf NInf = PInf"

fun jdiv :: "jsnum \<Rightarrow> jsnum \<Rightarrow> jsnum" where
  "jdiv (Fin x) (Fin y) =
     (if y = 0 then (if x = 0 then NaN else if 0 < x then PInf else NInf)
      else Fin (x / y))"
| "jdiv NaN _ = NaN"
| "jdiv _ NaN = NaN"
| "jdiv (Fin x) PInf = Fin 0"
| "jdiv (Fin x) NInf = Fin 0"
| "jdiv PInf (Fin y) = (if 0 \<le> y then PInf else NInf)"
| "jdiv NInf (Fin y) = (if 0 \<le> y then NInf else PInf)"
| "jdiv PInf PInf = NaN"
| "jdiv PInf NInf = NaN"
| "jdiv NInf PInf = NaN"
| "jdiv NInf NInf = NaN"

text \<open>\<^verbatim>\<open>a < b\<close> and \<^verbatim>\<open>a <= b\<close>: every comparison with \<^verbatim>\<open>NaN\<close> is false.\<close>

fun jlt :: "jsnum \<Rightarrow> jsnum \<Rightarrow> bool" where
  "jlt (Fin x) (Fin y) = (x < y)"
| "jlt NaN _ = False"
| "jlt _ NaN = False"
| "jlt _ NInf = False"
| "jlt PInf _ = False"
| "jlt NInf _ = True"
| "jlt _ PInf = True"

fun jle :: "jsnum \<Rightarrow> jsnum \<Rightarrow> bool" where
  "jle (Fin x) (Fin y) = (x \<le> y)"
| "jle NaN _ = False"
| "jle _ NaN = False"
| "jle NInf _ = True"
| "jle _ PInf = True"
| "jle _ NInf = False"
| "jle PInf _ = False"

text \<open>
  \<^verbatim>\<open>Math.pow(b, n)\<close> for a finite base and an integer exponent. A negative power of
  zero is \<^verbatim>\<open>Infinity\<close>.
\<close>

definition jpow :: "real \<Rightarrow> int \<Rightarrow> jsnum" where
  "jpow b n =
     (if 0 \<le> n then Fin (b ^ nat n)
      else if b = 0 then PInf
      else Fin (1 / b ^ nat (- n)))"

text \<open>
  An array is the list of its elements up to \<^verbatim>\<open>length\<close>; \<open>None\<close> is a hole (an index
  below \<^verbatim>\<open>length\<close> that was never written). Reading a hole or an index beyond the end
  gives \<^verbatim>\<open>undefined\<close>, which arithmetic converts to \<^verbatim>\<open>NaN\<close>. Writing at or beyond
  \<^verbatim>\<open>length\<close> extends the array, leaving holes in between.
\<close>

type_synonym jsarray = "jsnum option list"

definition arr_get :: "jsarray \<Rightarrow> nat \<Rightarrow> jsnum" where
  "arr_get a i =
     (if i < length a then (case a ! i of Some v \<Rightarrow> v | None \<Rightarrow> NaN) else NaN)"

definition arr_set :: "jsarray \<Rightarrow> nat \<Rightarrow> jsnum \<Rightarrow> jsarray" where
  "arr_set a i v =
     (if i < length a then a[i := Some v]
      else a @ replicate (i - length a) None @ [Some v])"

text \<open>
  A property key is an array index only when it is an integer from 0 to \<open>2^32 - 2\<close>.
  Any other key (a negative number, say) names an ordinary property: writing it changes
  neither the elements nor \<^verbatim>\<open>length\<close>, and \<^verbatim>\<open>forEach\<close>, \<^verbatim>\<open>reduce\<close> and the spread
  \<^verbatim>\<open>...flows\<close> never see it.
\<close>

definition is_array_index :: "int \<Rightarrow> bool" where
  "is_array_index i = (0 \<le> i \<and> i < 4294967295)"

text \<open>\<^verbatim>\<open>a[i] += v\<close>\<close>

definition arr_add :: "jsarray \<Rightarrow> int \<Rightarrow> jsnum \<Rightarrow> jsarray" where
  "arr_add a i v =
     (if is_array_index i then arr_set a (nat i) (jadd (arr_get a (nat i)) v) else a)"

section \<open>State: units and configuration\<close>

text \<open>
  \<^verbatim>\<open>state.config\<close> is a global in the source; here it is passed to every function.
  Rates, percentages and prices are finite Numbers. The month fields
  (\<^verbatim>\<open>entradaMonths\<close>, \<^verbatim>\<open>payInterMonth\<close>, \<^verbatim>\<open>preLaunchMonths\<close>, \<^verbatim>\<open>launchMonths\<close>) and the
  position \<^verbatim>\<open>catIdx\<close> of a unit are integer-valued Numbers of any sign and size.
\<close>

record config =
  incc :: real
  ipca :: real
  entradaPct :: real
  entradaMonths :: int
  payAtoPct :: real
  payInterPct :: real
  payInterMonth :: int
  payChavesPct :: real
  preLaunchMonths :: int
  launchMonths :: int
  discountPre :: real
  discountLaunch :: real

record sale_unit =
  unit_id :: nat
  descricao :: string
  valor :: real
  categoria :: string
  status :: string

text \<open>The initial value of \<^verbatim>\<open>state.config\<close> (lines 10-23).\<close>

definition default_config :: config where
  "default_config =
     \<lparr> incc = 45 / 10000, ipca = 5 / 1000, entradaPct = 30, entradaMonths = 6,
       payAtoPct = 0, payInterPct = 0, payInterMonth = 6, payChavesPct = 0,
       preLaunchMonths = 2, launchMonths = 3, discountPre = 10, discountLaunch = 5 \<rparr>"

section \<open>Financial calculations\<close>

definition applyDiscount :: "config \<Rightarrow> real \<Rightarrow> int \<Rightarrow> real" where
  "applyDiscount cfg unitValue catIdx =
     (if catIdx < preLaunchMonths cfg then unitValue * (1 - discountPre cfg / 100)
      else if catIdx < preLaunchMonths cfg + launchMonths cfg
        then unitValue * (1 - discountLaunch cfg / 100)
      else unitValue)"

definition updateValueByINCC :: "config \<Rightarrow> real \<Rightarrow> int \<Rightarrow> jsnum" where
  "updateValueByINCC cfg initialValue monthIdx =
     jmul (Fin initialValue) (jpow (1 + incc cfg) monthIdx)"

definition updateValueByIPCA :: "config \<Rightarrow> real \<Rightarrow> int \<Rightarrow> jsnum" where
  "updateValueByIPCA cfg initialValue monthIdx =
     jmul (Fin initialValue) (jpow (1 + ipca cfg) monthIdx)"

text \<open>
  \<^verbatim>\<open>calcCashflowForUnit\<close> (lines 77-109). The \<^verbatim>\<open>for\<close> loop over
  \<^verbatim>\<open>m = 1, ..., entradaMonths\<close> is a left fold over the list \<open>[1..entradaMonths]\<close>,
  which is empty when \<^verbatim>\<open>entradaMonths < 1\<close>. The counter \<open>m\<close> is an exact integer (in a
  double, \<^verbatim>\<open>m++\<close> no longer changes \<open>m\<close> from \<open>2^53\<close> on, far beyond the size of any
  array). No statement of the function throws.
\<close>

definition calcCashflowForUnit :: "config \<Rightarrow> sale_unit \<Rightarrow> int \<Rightarrow> jsarray" where
  "calcCashflowForUnit cfg u catIdx =
     (let cashFlow0 = replicate 24 (Some (Fin 0));
          basePrice = applyDiscount cfg (valor u) catIdx;
          entradaTotal = (entradaPct cfg / 100) * basePrice;
          payAto = (payAtoPct cfg / 100) * basePrice;
          payInter = (payInterPct cfg / 100) * basePrice;
          payChaves = (payChavesPct cfg / 100) * basePrice;
          entradaMensal = jdiv (Fin entradaTotal) (Fin (of_int (entradaMonths cfg)));
          cashFlow1 = arr_add cashFlow0 0 (Fin payAto);
          cashFlow2 = foldl (\<lambda>cf m. arr_add cf m entradaMensal) cashFlow1
                        [1..entradaMonths cfg];
          cashFlow3 = (if 0 < payInterPct cfg
                       then arr_add cashFlow2 (payInterMonth cfg)
                              (updateValueByINCC cfg payInter (payInterMonth cfg))
                       else cashFlow2)
      in arr_add cashFlow3 23 (updateValueByIPCA cfg payChaves 23))"

text \<open>
  \<^verbatim>\<open>calcTIR\<close> (lines 112-124). \<^verbatim>\<open>reduce\<close> visits the present elements in index
  order and skips holes. The variable \<^verbatim>\<open>rate\<close> is always a finite Number: it starts at
  0.01 and changes only by steps of 0.01 and by \<^verbatim>\<open>Math.max\<close>.
\<close>

definition npv :: "jsarray \<Rightarrow> real \<Rightarrow> jsnum" where
  "npv cashflows rate =
     foldl (\<lambda>acc (idx, c). case c of None \<Rightarrow> acc
                              | Some v \<Rightarrow> jadd acc (jdiv v (jpow (1 + rate) (int idx))))
       (Fin 0) (enumerate 0 cashflows)"

function tir_loop :: "jsarray \<Rightarrow> nat \<Rightarrow> real \<Rightarrow> real" where
  "tir_loop cashflows i rate =
     (if i < 200 then
        (if jlt (jabs (npv cashflows rate)) (Fin (1 / 1000000)) then rate
         else tir_loop cashflows (i + 1)
                (max (rate + (if jlt (Fin 0) (npv cashflows rate) then 1 / 100 else - (1 / 100)))
                   (- (99 / 100))))
      else rate)"
  by pat_completeness auto
termination
  by (relation "measure (\<lambda>(cashflows, i, rate). 200 - i)") auto

definition calcTIR :: "jsarray \<Rightarrow> real" where
  "calcTIR cashflows = tir_loop cashflows 0 (1 / 100)"



text \<open>
  The aggregation loop of \<^verbatim>\<open>runSimulation\<close> (lines 165-172):
  \<^verbatim>\<open>flow.forEach((v, m) => { allFlows[m] += v; })\<close> for the flow of every unit in turn.
  \<^verbatim>\<open>forEach\<close> skips holes. The addition of \<^verbatim>\<open>+=\<close> is a parameter, so that the loop can
  be read with exact addition (\<open>jadd\<close>) and with the rounded addition of IEEE-754 doubles.
\<close>

definition add_flow :: "(jsnum \<Rightarrow> jsnum \<Rightarrow> jsnum) \<Rightarrow> jsarray \<Rightarrow> jsarray \<Rightarrow> jsarray" where
  "add_flow addn allFlows flow =
     foldl (\<lambda>acc (m, c). case c of None \<Rightarrow> acc
                            | Some v \<Rightarrow> arr_set acc m (addn (arr_get acc m) v))
       allFlows (enumerate 0 flow)"

definition aggregate_with :: "(jsnum \<Rightarrow> jsnum \<Rightarrow> jsnum) \<Rightarrow> jsarray list \<Rightarrow> jsarray" where
  "aggregate_with addn flows = foldl (add_flow addn) (replicate 24 (Some (Fin 0))) flows"

definition aggregate :: "jsarray list \<Rightarrow> jsarray" where
  "aggregate flows = aggregate_with jadd flows"

text \<open>The position of a unit in \<^verbatim>\<open>state.units\<close> is its \<^verbatim>\<open>catIdx\<close>.\<close>

definition unit_flows :: "config \<Rightarrow> sale_unit list \<Rightarrow> jsarray list" where
  "unit_flows cfg units =
     map (\<lambda>(idx, u). calcCashflowForUnit cfg u (int idx)) (enumerate 0 units)"

definition allFlows :: "config \<Rightarrow> sale_unit list \<Rightarrow> jsarray" where
  "allFlows cfg units = aggregate (unit_flows cfg units)"

text \<open>\<^verbatim>\<open>calcPayback\<close> (lines 186-193).\<close>

function payback_loop :: "jsarray \<Rightarrow> nat \<Rightarrow> jsnum \<Rightarrow> nat" where
  "payback_loop flows i acc =
     (if i < length flows then
        (if jle (Fin 0) (jadd acc (arr_get flows i)) then i
         else payback_loop flows (i + 1) (jadd acc (arr_get flows i)))
      else length flows)"
  by pat_completeness auto
termination
  by (relation "measure (\<lambda>(flows, i, acc). length flows - i)") auto

definition calcPayback :: "jsarray \<Rightarrow> nat" where
  "calcPayback flows = payback_loop flows 0 (Fin 0)"

text \<open>
  The running sum \<^verbatim>\<open>flows[0] + ... + flows[i]\<close>, added from the left as the loop adds it
  (a hole or an index beyond the end counts as \<^verbatim>\<open>NaN\<close>).
\<close>

definition cumulative :: "jsarray \<Rightarrow> nat \<Rightarrow> jsnum" where
  "cumulative flows i = foldl jadd (Fin 0) (map (arr_get flows) [0..<Suc i])"

text \<open>
  \<^verbatim>\<open>calcROI\<close> (lines 195-200). The spread \<^verbatim>\<open>...flows\<close> passes a hole as
  \<^verbatim>\<open>undefined\<close>, which \<^verbatim>\<open>Math.min\<close> converts to \<^verbatim>\<open>NaN\<close>; \<^verbatim>\<open>Math.min\<close> of no
  argument is \<^verbatim>\<open>Infinity\<close>, and it is \<^verbatim>\<open>NaN\<close> as soon as one argument is.

  The function returns the Number 0 from its guard and otherwise the String that
  \<^verbatim>\<open>toFixed(2)\<close> prints. That string is the sign and the decimal digits of the integer
  \<open>n\<close> for which \<open>n / 100\<close> is nearest to the absolute value (the larger \<open>n\<close> on a tie),
  with a point before the last two digits; it is represented by the sign and \<open>n\<close>.
  For \<^verbatim>\<open>NaN\<close>, the infinities and absolute values from \<open>10^21\<close> on, \<^verbatim>\<open>toFixed\<close>
  prints the Number as \<^verbatim>\<open>String(x)\<close> does.
\<close>

datatype roi_result = RoiNumber real | RoiFixed bool nat | RoiText jsnum

fun toFixed2 :: "jsnum \<Rightarrow> roi_result" where
  "toFixed2 (Fin x) =
     (if 10 ^ 21 \<le> \<bar>x\<bar> then RoiText (Fin x)
      else RoiFixed (x < 0) (nat \<lfloor>\<bar>x\<bar> * 100 + 1 / 2\<rfloor>))"
| "toFixed2 PInf = RoiText PInf"
| "toFixed2 NInf = RoiText NInf"
| "toFixed2 NaN = RoiText NaN"

definition math_min :: "jsnum list \<Rightarrow> jsnum" where
  "math_min args =
     foldl (\<lambda>m x. if m = NaN \<or> x = NaN then NaN else if jlt x m then x else m) PInf args"

definition spread :: "jsarray \<Rightarrow> jsnum list" where
  "spread a = map (\<lambda>c. case c of None \<Rightarrow> NaN | Some v \<Rightarrow> v) a"

definition reduce_sum :: "jsarray \<Rightarrow> jsnum" where
  "reduce_sum a = foldl (\<lambda>acc c. case c of None \<Rightarrow> acc | Some v \<Rightarrow> jadd acc v) (Fin 0) a"

definition calcROI :: "jsarray \<Rightarrow> roi_result" where
  "calcROI flows =
     (let total = reduce_sum flows;
          invested = jneg (math_min (spread flows))
      in if jle invested (Fin 0) then RoiNumber 0
         else toFixed2 (jmul (jdiv total invested) (Fin 100)))"

text \<open>
  The four scalars that \<^verbatim>\<open>runSimulation\<close> (lines 164-184) computes from \<^verbatim>\<open>allFlows\<close>,
  before they are formatted into the page.
\<close>

record summary =
  receitaTotal :: jsnum
  tir :: real
  payback :: nat
  roi :: roi_result

definition runSimulation :: "config \<Rightarrow> sale_unit list \<Rightarrow> summary" where
  "runSimulation cfg units =
     (let flows = allFlows cfg units
      in \<lparr> receitaTotal = reduce_sum flows, tir = calcTIR flows,
           payback = calcPayback flows, roi = calcROI flows \<rparr>)"

section \<open>Rounded addition\<close>

text \<open>
  A Number is an IEEE-754 binary64 value, and \<^verbatim>\<open>+\<close> rounds the exact sum to the nearest
  such value, ties to the even significand. For a real \<open>x\<close> other than 0 with binary
  exponent \<open>e\<close> (at least \<open>-1022\<close>, where the subnormal numbers start), the binary64
  values around \<open>x\<close> are the integer multiples of \<open>2^(e - 52)\<close>; a result of magnitude
  \<open>2^1024\<close> or more is an infinity.
\<close>

definition round_ties_even :: "real \<Rightarrow> int" where
  "round_ties_even r =
     (if r - of_int \<lfloor>r\<rfloor> < 1 / 2 then \<lfloor>r\<rfloor>
      else if 1 / 2 < r - of_int \<lfloor>r\<rfloor> then \<lfloor>r\<rfloor> + 1
      else if even \<lfloor>r\<rfloor> then \<lfloor>r\<rfloor> else \<lfloor>r\<rfloor> + 1)"

definition binary64 :: "real \<Rightarrow> jsnum" where
  "binary64 x =
     (if x = 0 then Fin 0
      else let e = max \<lfloor>log 2 \<bar>x\<bar>\<rfloor> (- 1022);
               ulp = 2 powi (e - 52);
               y = ulp * of_int (round_ties_even (x / ulp))
           in if 2 ^ 1024 \<le> \<bar>y\<bar> then (if 0 < x then PInf else NInf) else Fin y)"

definition fadd :: "jsnum \<Rightarrow> jsnum \<Rightarrow> jsnum" where
  "fadd a b = (case jadd a b of Fin s \<Rightarrow> binary64 s | r \<Rightarrow> r)"

section \<open>The builder on binary64 Numbers\<close>

text \<open>
  The other operators round as \<^verbatim>\<open>+\<close> does: the exact result of \<^verbatim>\<open>-\<close>, \<^verbatim>\<open>*\<close> and \<^verbatim>\<open>/\<close> on
  finite operands is rounded to binary64, and an infinite or \<^verbatim>\<open>NaN\<close> result of the exact
  tables (\<open>0 * Infinity\<close>, a quotient by 0, ...) is returned as it is. The two zeros are
  not told apart.
\<close>

definition fsub :: "jsnum \<Rightarrow> jsnum \<Rightarrow> jsnum" where
  "fsub a b = (case jadd a (jneg b) of Fin s \<Rightarrow> binary64 s | r \<Rightarrow> r)"

definition fmul :: "jsnum \<Rightarrow> jsnum \<Rightarrow> jsnum" where
  "fmul a b = (case jmul a b of Fin s \<Rightarrow> binary64 s | r \<Rightarrow> r)"

definition fdiv :: "jsnum \<Rightarrow> jsnum \<Rightarrow> jsnum" where
  "fdiv a b = (case jdiv a b of Fin s \<Rightarrow> binary64 s | r \<Rightarrow> r)"

text \<open>
  \<^verbatim>\<open>Math.pow(a, n)\<close> for an integer exponent: 1 for the exponent 0 whatever the base, and
  for a finite base the rounded exact power, so that a power of magnitude \<open>2^1024\<close> or
  more is an infinity. (The last bit of \<^verbatim>\<open>Math.pow\<close> depends on the engine; the results
  below use only the overflow threshold, the sign of the power and bounds on it.)
\<close>

definition fpow :: "jsnum \<Rightarrow> int \<Rightarrow> jsnum" where
  "fpow a n =
     (if n = 0 then Fin 1
      else case a of
             Fin b \<Rightarrow> (case jpow b n of Fin s \<Rightarrow> binary64 s | r \<Rightarrow> r)
           | PInf \<Rightarrow> (if 0 < n then PInf else Fin 0)
           | NInf \<Rightarrow> (if 0 < n then (if even n then PInf else NInf) else Fin 0)
           | NaN \<Rightarrow> NaN)"

text \<open>
  \<^verbatim>\<open>applyDiscount\<close> (lines 53-65), \<^verbatim>\<open>updateValueByINCC\<close> and \<^verbatim>\<open>updateValueByIPCA\<close>
  (lines 67-75) with every operation rounded. \<open>factor64\<close> is the factor
  \<^verbatim>\<open>Math.pow(1 + rate, monthIdx)\<close> of lines 69 and 74. The values of the configuration and
  of the unit enter as they are.
\<close>

definition applyDiscount64 :: "config \<Rightarrow> real \<Rightarrow> int \<Rightarrow> jsnum" where
  "applyDiscount64 cfg unitValue catIdx =
     (if catIdx < preLaunchMonths cfg
        then fmul (Fin unitValue) (fsub (Fin 1) (fdiv (Fin (discountPre cfg)) (Fin 100)))
      else if catIdx < preLaunchMonths cfg + launchMonths cfg
        then fmul (Fin unitValue) (fsub (Fin 1) (fdiv (Fin (discountLaunch cfg)) (Fin 100)))
      else Fin unitValue)"

definition factor64 :: "real \<Rightarrow> int \<Rightarrow> jsnum" where
  "factor64 rate monthIdx = fpow (fadd (Fin 1) (Fin rate)) monthIdx"

definition updateValueByINCC64 :: "config \<Rightarrow> jsnum \<Rightarrow> int \<Rightarrow> jsnum" where
  "updateValueByINCC64 cfg initialValue monthIdx =
     fmul initialValue (factor64 (incc cfg) monthIdx)"

definition updateValueByIPCA64 :: "config \<Rightarrow> jsnum \<Rightarrow> int \<Rightarrow> jsnum" where
  "updateValueByIPCA64 cfg initialValue monthIdx =
     fmul initialValue (factor64 (ipca cfg) monthIdx)"

text \<open>
  \<^verbatim>\<open>calcCashflowForUnit\<close> (lines 77-109) with every operation rounded: the same
  statements in the same order as in \<open>calcCashflowForUnit\<close> above. \<open>arr_add64\<close> is
  \<^verbatim>\<open>a[i] += v\<close>, and \<open>leg64 pct basePrice\<close> is \<^verbatim>\<open>(pct / 100) * basePrice\<close> of lines
  82-85.
\<close>

definition arr_add64 :: "jsarray \<Rightarrow> int \<Rightarrow> jsnum \<Rightarrow> jsarray" where
  "arr_add64 a i v =
     (if is_array_index i then arr_set a (nat i) (fadd (arr_get a (nat i)) v) else a)"

definition leg64 :: "real \<Rightarrow> jsnum \<Rightarrow> jsnum" where
  "leg64 pct basePrice = fmul (fdiv (Fin pct) (Fin 100)) basePrice"

definition calcCashflowForUnit64 :: "config \<Rightarrow> sale_unit \<Rightarrow> int \<Rightarrow> jsarray" where
  "calcCashflowForUnit64 cfg u catIdx =
     (let cashFlow0 = replicate 24 (Some (Fin 0));
          basePrice = applyDiscount64 cfg (valor u) catIdx;
          entradaTotal = leg64 (entradaPct cfg) basePrice;
          payAto = leg64 (payAtoPct cfg) basePrice;
          payInter = leg64 (payInterPct cfg) basePrice;
          payChaves = leg64 (payChavesPct cfg) basePrice;
          entradaMensal = fdiv entradaTotal (Fin (of_int (entradaMonths cfg)));
          cashFlow1 = arr_add64 cashFlow0 0 payAto;
          cashFlow2 = foldl (\<lambda>cf m. arr_add64 cf m entradaMensal) cashFlow1
                        [1..entradaMonths cfg];
          cashFlow3 = (if 0 < payInterPct cfg
                       then arr_add64 cashFlow2 (payInterMonth cfg)
                              (updateValueByINCC64 cfg payInter (payInterMonth cfg))
                       else cashFlow2)
      in arr_add64 cashFlow3 23 (updateValueByIPCA64 cfg payChaves 23))"

text \<open>The aggregation loop of \<^verbatim>\<open>runSimulation\<close> (lines 165-172) on these flows.\<close>

definition unit_flows64 :: "config \<Rightarrow> sale_unit list \<Rightarrow> jsarray list" where
  "unit_flows64 cfg units =
     map (\<lambda>(idx, u). calcCashflowForUnit64 cfg u (int idx)) (enumerate 0 units)"

definition allFlows64 :: "config \<Rightarrow> sale_unit list \<Rightarrow> jsarray" where
  "allFlows64 cfg units = aggregate_with fadd (unit_flows64 cfg units)"

text \<open>
  A finite Number (neither an infinity nor \<^verbatim>\<open>NaN\<close>), and the condition that no amount of
  a unit overflows: the four amounts \<^verbatim>\<open>(pct / 100) * basePrice\<close> of lines 82-85 and the
  two escalation factors used by lines 99 and 105 are finite Numbers.
\<close>

definition is_finite :: "jsnum \<Rightarrow> bool" where
  "is_finite a = (case a of Fin x \<Rightarrow> True | _ \<Rightarrow> False)"

definition amounts_finite :: "config \<Rightarrow> sale_unit \<Rightarrow> int \<Rightarrow> bool" where
  "amounts_finite cfg u catIdx =
     (is_finite (leg64 (entradaPct cfg) (applyDiscount64 cfg (valor u) catIdx)) \<and>
      is_finite (leg64 (payAtoPct cfg) (applyDiscount64 cfg (valor u) catIdx)) \<and>
      is_finite (leg64 (payInterPct cfg) (applyDiscount64 cfg (valor u) catIdx)) \<and>
      is_finite (leg64 (payChavesPct cfg) (applyDiscount64 cfg (valor u) catIdx)) \<and>
      is_finite (factor64 (incc cfg) (payInterMonth cfg)) \<and>
      is_finite (factor64 (ipca cfg) 23))"

text \<open>
  An array without holes whose entries all satisfy \<open>Q\<close>; a vector of inflows has only
  entries that are at least 0 (a finite Number from 0 on, or \<^verbatim>\<open>Infinity\<close>; never \<^verbatim>\<open>NaN\<close>).
\<close>

definition cells_all :: "(jsnum \<Rightarrow> bool) \<Rightarrow> jsarray \<Rightarrow> bool" where
  "cells_all Q a = list_all (\<lambda>c. case c of None \<Rightarrow> False | Some v \<Rightarrow> Q v) a"

definition inflow_vector :: "jsarray \<Rightarrow> bool" where
  "inflow_vector a = cells_all (jle (Fin 0)) a"

text \<open>
  The bounds on the configuration under which only inflows are expected: no negative
  percentage, no discount above 100, no rate below \<open>-1\<close>, and months that address the
  24 entries.
\<close>

definition inflow_config :: "config \<Rightarrow> bool" where
  "inflow_config cfg \<longleftrightarrow>
     0 \<le> entradaPct cfg \<and> 0 \<le> payAtoPct cfg \<and> 0 \<le> payInterPct cfg \<and>
     0 \<le> payChavesPct cfg \<and> discountPre cfg \<le> 100 \<and> discountLaunch cfg \<le> 100 \<and>
     - 1 \<le> incc cfg \<and> - 1 \<le> ipca cfg \<and>
     entradaMonths cfg \<le> 23 \<and> 0 \<le> payInterMonth cfg \<and> payInterMonth cfg \<le> 23"

section \<open>Data used in the examples\<close>

text \<open>The first unit of \<^verbatim>\<open>loadUnits\<close> (line 44); the status is UTF-8.\<close>

definition apto101 :: sale_unit where
  "apto101 =
     \<lparr> unit_id = 1, descricao = ''Apto 101'', valor = 300000, categoria = ''Apto'',
       status = ''Dispon'' @ [CHR 0xC3, CHR 0xAD] @ ''vel'' \<rparr>"

text \<open>The other two units, and the list that \<^verbatim>\<open>loadUnits\<close> stores in \<^verbatim>\<open>state.units\<close>.\<close>

definition apto102 :: sale_unit where
  "apto102 =
     \<lparr> unit_id = 2, descricao = ''Apto 102'', valor = 320000, categoria = ''Apto'',
       status = ''Dispon'' @ [CHR 0xC3, CHR 0xAD] @ ''vel'' \<rparr>"

definition cobertura201 :: sale_unit where
  "cobertura201 =
     \<lparr> unit_id = 3, descricao = ''Cobertura 201'', valor = 500000, categoria = ''Cobertura'',
       status = ''Dispon'' @ [CHR 0xC3, CHR 0xAD] @ ''vel'' \<rparr>"

definition loadUnits :: "sale_unit list" where
  "loadUnits = [apto101, apto102, cobertura201]"

text \<open>The configuration of the end-to-end scenario: the initial one, with 70% at the keys.\<close>

definition scenario_config :: config where
  "scenario_config = default_config \<lparr> payChavesPct := 70 \<rparr>"

text \<open>
  A configuration in which a unit is paid in full at signing, without discount, and the
  flow of a unit of price \<open>x\<close> under it: \<open>x\<close> at month 0 and 0 in the 23 other months.
\<close>

definition signing_config :: config where
  "signing_config =
     default_config \<lparr> entradaPct := 0, payAtoPct := 100, discountPre := 0, discountLaunch := 0 \<rparr>"

definition paid_at_signing :: "real \<Rightarrow> jsarray" where
  "paid_at_signing x = Some (Fin x) # replicate 23 (Some (Fin 0))"

text \<open>
  The initial configuration with an IPCA rate of \<open>10^14\<close> per month, and the first unit
  with a negative value.
\<close>

definition overflow_config :: config where
  "overflow_config = default_config \<lparr> ipca := 100000000000000 \<rparr>"

definition debt_unit :: sale_unit where
  "debt_unit = apto101 \<lparr> valor := - 300000 \<rparr>"

text \<open>
  A vector of \<open>N\<close> finite entries without holes, given by its entries. It is only a way to
  write such arrays in the proofs.
\<close>

definition vec :: "nat \<Rightarrow> (nat \<Rightarrow> real) \<Rightarrow> jsarray" where
  "vec N f = map (\<lambda>k. Some (Fin (f k))) [0..<N]"

section \<open>Array writes\<close>

lemma length_arr_set: "length (arr_set a i v) = max (length a) (Suc i)"
  by (auto simp: arr_set_def)

lemma nth_arr_set:
  "j < max (length a) (Suc i) \<Longrightarrow>
   arr_set a i v ! j = (if j = i then Some v else if j < length a then a ! j else None)"
  by (auto simp: arr_set_def nth_append)

lemma length_arr_add:
  "length (arr_add a i v) = (if is_array_index i then max (length a) (Suc (nat i)) else length a)"
  by (simp add: arr_add_def length_arr_set)

lemma arr_add_vec:
  assumes "0 \<le> i" "i < int N" "N \<le> 4294967295"
  shows "arr_add (vec N f) i (Fin x) = vec N (\<lambda>k. if int k = i then f k + x else f k)"
  using assms
  by (intro nth_equalityI) (auto simp: arr_add_def is_array_index_def arr_set_def arr_get_def vec_def)

lemma upto_snoc: "1 \<le> n \<Longrightarrow> [1..n] = [1..n - 1] @ [n]"
  by (simp add: upto_rec2)

lemma entrada_fold_vec:
  assumes "N \<le> 4294967295"
  shows "n < int N \<Longrightarrow>
   foldl (\<lambda>cf m. arr_add cf m (Fin x)) (vec N f) [1..n] =
   vec N (\<lambda>k. if 1 \<le> int k \<and> int k \<le> n then f k + x else f k)"
proof (induction "nat n" arbitrary: n)
  case 0
  then have "n \<le> 0" by simp
  then show ?case by (auto simp: vec_def)
next
  case (Suc j)
  then have n: "1 \<le> n" "j = nat (n - 1)" "n - 1 < int N" by auto
  have "foldl (\<lambda>cf m. arr_add cf m (Fin x)) (vec N f) [1..n] =
        arr_add (foldl (\<lambda>cf m. arr_add cf m (Fin x)) (vec N f) [1..n - 1]) n (Fin x)"
    by (simp add: upto_snoc [OF n(1)])
  also have "\<dots> = arr_add (vec N (\<lambda>k. if 1 \<le> int k \<and> int k \<le> n - 1 then f k + x else f k)) n (Fin x)"
    using Suc.hyps(1) [OF n(2) n(3)] by simp
  also have "\<dots> = vec N (\<lambda>k. if 1 \<le> int k \<and> int k \<le> n then f k + x else f k)"
    using n Suc.prems assms by (subst arr_add_vec) (auto simp: vec_def)
  finally show ?case .
qed

lemma nth_arr_add:
  "j < length (arr_add a i v) \<Longrightarrow>
   arr_add a i v ! j =
     (if is_array_index i \<and> j = nat i then Some (jadd (arr_get a j) v)
      else if j < length a then a ! j else None)"
  by (auto simp: arr_add_def length_arr_set nth_arr_set)

lemma entrada_fold_length:
  "1 \<le> length a \<Longrightarrow>
   length (foldl (\<lambda>cf m. arr_add cf m e) a [1..n]) =
     max (length a) (Suc (nat (min n 4294967294)))"
proof (induction "nat n" arbitrary: n)
  case 0
  then have "n \<le> 0" by simp
  with 0 show ?case by auto
next
  case (Suc j)
  then have n: "1 \<le> n" "j = nat (n - 1)" by auto
  have ih: "length (foldl (\<lambda>cf m. arr_add cf m e) a [1..n - 1]) =
     max (length a) (Suc (nat (min (n - 1) 4294967294)))"
    using Suc.hyps(1) [OF n(2) Suc.prems] .
  have step: "foldl (\<lambda>cf m. arr_add cf m e) a [1..n] =
      arr_add (foldl (\<lambda>cf m. arr_add cf m e) a [1..n - 1]) n e"
    by (simp add: upto_snoc [OF n(1)])
  show ?case
  proof (cases "n \<le> 4294967294")
    case True
    then have "is_array_index n" "min n 4294967294 = n" "min (n - 1) 4294967294 = n - 1"
      using n(1) by (simp_all add: is_array_index_def)
    then show ?thesis
      unfolding step length_arr_add ih using n(1) by simp
  next
    case False
    then have "\<not> is_array_index n" "min n 4294967294 = 4294967294"
      "min (n - 1) 4294967294 = 4294967294"
      by (simp_all add: is_array_index_def)
    then show ?thesis
      unfolding step length_arr_add ih by simp
  qed
qed

lemma entrada_fold_nan:
  assumes a: "1 \<le> length a"
  shows "length a \<le> m \<Longrightarrow> int m \<le> n \<Longrightarrow> is_array_index (int m) \<Longrightarrow>
     foldl (\<lambda>cf m. arr_add cf m e) a [1..n] ! m = Some NaN"
proof (induction "nat n" arbitrary: n)
  case 0
  with a show ?case by auto
next
  case (Suc j)
  then have n: "1 \<le> n" "j = nat (n - 1)" by auto
  define cf where "cf = foldl (\<lambda>cf m. arr_add cf m e) a [1..n - 1]"
  have len: "length cf = max (length a) (Suc (nat (min (n - 1) 4294967294)))"
    unfolding cf_def by (rule entrada_fold_length [OF a])
  have step: "foldl (\<lambda>cf m. arr_add cf m e) a [1..n] = arr_add cf n e"
    by (simp add: upto_snoc [OF n(1)] cf_def)
  have m: "int m \<le> 4294967294" "1 \<le> m"
    using Suc.prems(3) Suc.prems(1) a by (auto simp: is_array_index_def)
  show ?case
  proof (cases "int m = n")
    case True
    then have "is_array_index n" using Suc.prems(3) by simp
    moreover have "length cf = m" using len True m Suc.prems(1) by (auto simp: max_def min_def)
    ultimately show ?thesis
      unfolding step using True
      by (subst nth_arr_add) (auto simp: length_arr_add arr_get_def)
  next
    case False
    then have lt: "int m \<le> n - 1" using Suc.prems(2) by simp
    have ih: "cf ! m = Some NaN"
      unfolding cf_def using Suc.hyps(1) [OF n(2) Suc.prems(1) lt Suc.prems(3)] .
    have "m < length cf" using len lt m by (auto simp: max_def min_def)
    then show ?thesis
      unfolding step using False ih n(1)
      by (subst nth_arr_add) (auto simp: length_arr_add)
  qed
qed

section \<open>The cash-flow vector\<close>

lemma escalate_nonneg:
  "0 \<le> m \<Longrightarrow> jmul (Fin v) (jpow b m) = Fin (v * b ^ nat m)"
  by (simp add: jpow_def)

lemma vec_cong: "(\<And>k. k < N \<Longrightarrow> f k = g k) \<Longrightarrow> vec N f = vec N g"
  by (simp add: vec_def)

lemma pow_nat_int: "int k = p \<Longrightarrow> (b::real) ^ nat p = b ^ k"
  by auto

lemma zeros_vec: "replicate 24 (Some (Fin 0)) = vec 24 (\<lambda>_. 0)"
  by (simp add: vec_def map_replicate_const)

lemma cashflow_in_range:
  assumes em: "entradaMonths cfg \<le> 23"
    and pim: "0 < payInterPct cfg \<Longrightarrow> 0 \<le> payInterMonth cfg \<and> payInterMonth cfg \<le> 23"
  shows "calcCashflowForUnit cfg u catIdx =
     vec 24 (\<lambda>m.
       (if m = 0 then payAtoPct cfg / 100 * applyDiscount cfg (valor u) catIdx else 0) +
       (if 1 \<le> int m \<and> int m \<le> entradaMonths cfg
        then entradaPct cfg / 100 * applyDiscount cfg (valor u) catIdx / of_int (entradaMonths cfg)
        else 0) +
       (if 0 < payInterPct cfg \<and> int m = payInterMonth cfg
        then payInterPct cfg / 100 * applyDiscount cfg (valor u) catIdx * (1 + incc cfg) ^ m
        else 0) +
       (if m = 23
        then payChavesPct cfg / 100 * applyDiscount cfg (valor u) catIdx * (1 + ipca cfg) ^ 23
        else 0))"
proof -
  define bp where "bp = applyDiscount cfg (valor u) catIdx"
  define e where "e = jdiv (Fin (entradaPct cfg / 100 * bp)) (Fin (of_int (entradaMonths cfg)))"
  define c1 where "c1 = vec 24 (\<lambda>m. if m = 0 then payAtoPct cfg / 100 * bp else 0)"
  define c2 where "c2 = vec 24 (\<lambda>m. (if m = 0 then payAtoPct cfg / 100 * bp else 0) +
       (if 1 \<le> int m \<and> int m \<le> entradaMonths cfg
        then entradaPct cfg / 100 * bp / of_int (entradaMonths cfg) else 0))"
  have s1: "arr_add (replicate 24 (Some (Fin 0))) 0 (Fin (payAtoPct cfg / 100 * bp)) = c1"
    unfolding zeros_vec c1_def by (subst arr_add_vec) (auto simp: vec_def)
  have s2: "foldl (\<lambda>cf m. arr_add cf m e) c1 [1..entradaMonths cfg] = c2"
  proof (cases "1 \<le> entradaMonths cfg")
    case True
    then have e: "e = Fin (entradaPct cfg / 100 * bp / of_int (entradaMonths cfg))"
      by (simp add: e_def)
    show ?thesis
      unfolding c1_def c2_def e using em by (subst entrada_fold_vec) (auto simp: vec_def)
  next
    case False
    then show ?thesis by (auto simp: c1_def c2_def vec_def)
  qed
  define c3 where "c3 = vec 24 (\<lambda>m. (if m = 0 then payAtoPct cfg / 100 * bp else 0) +
       (if 1 \<le> int m \<and> int m \<le> entradaMonths cfg
        then entradaPct cfg / 100 * bp / of_int (entradaMonths cfg) else 0) +
       (if 0 < payInterPct cfg \<and> int m = payInterMonth cfg
        then payInterPct cfg / 100 * bp * (1 + incc cfg) ^ m else 0))"
  have s3: "(if 0 < payInterPct cfg
             then arr_add c2 (payInterMonth cfg)
                    (jmul (Fin (payInterPct cfg / 100 * bp)) (jpow (1 + incc cfg) (payInterMonth cfg)))
             else c2) = c3"
  proof (cases "0 < payInterPct cfg")
    case True
    with pim have r: "0 \<le> payInterMonth cfg" "payInterMonth cfg < int 24" by auto
    show ?thesis
      unfolding c2_def c3_def using True r
      by (simp add: escalate_nonneg arr_add_vec) (auto intro!: vec_cong simp: pow_nat_int)
  next
    case False
    then show ?thesis by (auto simp: c2_def c3_def intro!: vec_cong)
  qed
  have s4: "arr_add c3 23 (jmul (Fin (payChavesPct cfg / 100 * bp)) (jpow (1 + ipca cfg) 23)) =
     vec 24 (\<lambda>m. (if m = 0 then payAtoPct cfg / 100 * bp else 0) +
       (if 1 \<le> int m \<and> int m \<le> entradaMonths cfg
        then entradaPct cfg / 100 * bp / of_int (entradaMonths cfg) else 0) +
       (if 0 < payInterPct cfg \<and> int m = payInterMonth cfg
        then payInterPct cfg / 100 * bp * (1 + incc cfg) ^ m else 0) +
       (if m = 23 then payChavesPct cfg / 100 * bp * (1 + ipca cfg) ^ 23 else 0))"
    unfolding c3_def by (simp add: escalate_nonneg arr_add_vec) (auto intro!: vec_cong)
  show ?thesis
    unfolding calcCashflowForUnit_def Let_def bp_def [symmetric] e_def [symmetric] s1 s2
      updateValueByINCC_def updateValueByIPCA_def s3 s4 ..
qed

lemma nth_arr_add_below:
  "j < length a \<Longrightarrow>
   arr_add a i v ! j =
     (if is_array_index i \<and> j = nat i then Some (jadd (arr_get a j) v) else a ! j)"
  by (auto simp: arr_add_def arr_set_def nth_append)

lemma nth_arr_add_same:
  "is_array_index i \<Longrightarrow> arr_add a i v ! nat i = Some (jadd (arr_get a (nat i)) v)"
  by (simp add: nth_arr_add length_arr_add)

lemma arr_get_fold_beyond:
  assumes "length a = 24" "24 \<le> p" "is_array_index p"
  shows "arr_get (foldl (\<lambda>cf m. arr_add cf m e) a [1..n]) (nat p) = NaN"
proof (cases "nat p < length (foldl (\<lambda>cf m. arr_add cf m e) a [1..n])")
  case True
  then have "p \<le> n"
    using assms by (simp add: entrada_fold_length)
  then have "foldl (\<lambda>cf m. arr_add cf m e) a [1..n] ! nat p = Some NaN"
    using assms by (intro entrada_fold_nan) auto
  with True show ?thesis by (simp add: arr_get_def)
next
  case False
  then show ?thesis by (simp add: arr_get_def)
qed

lemma cashflow_length:
  "length (calcCashflowForUnit cfg u catIdx) =
     max (max 24 (Suc (nat (min (entradaMonths cfg) 4294967294))))
       (if 0 < payInterPct cfg \<and> is_array_index (payInterMonth cfg)
        then Suc (nat (payInterMonth cfg)) else 0)"
  by (simp add: calcCashflowForUnit_def Let_def length_arr_add entrada_fold_length
      is_array_index_def)

lemma cashflow_entrada_nan:
  assumes "24 \<le> m" "m \<le> entradaMonths cfg" "is_array_index m"
  shows "calcCashflowForUnit cfg u catIdx ! nat m = Some NaN"
proof -
  define e where "e = jdiv (Fin (entradaPct cfg / 100 * applyDiscount cfg (valor u) catIdx))
      (Fin (of_int (entradaMonths cfg)))"
  define c1 where "c1 = arr_add (replicate 24 (Some (Fin 0))) 0
      (Fin (payAtoPct cfg / 100 * applyDiscount cfg (valor u) catIdx))"
  define c2 where "c2 = foldl (\<lambda>cf m. arr_add cf m e) c1 [1..entradaMonths cfg]"
  define y where "y = updateValueByINCC cfg
      (payInterPct cfg / 100 * applyDiscount cfg (valor u) catIdx) (payInterMonth cfg)"
  define c3 where "c3 = (if 0 < payInterPct cfg then arr_add c2 (payInterMonth cfg) y else c2)"
  have cf: "calcCashflowForUnit cfg u catIdx = arr_add c3 23
      (updateValueByIPCA cfg (payChavesPct cfg / 100 * applyDiscount cfg (valor u) catIdx) 23)"
    by (simp add: calcCashflowForUnit_def Let_def c3_def c2_def c1_def e_def y_def)
  have l1: "length c1 = 24"
    by (simp add: c1_def length_arr_add is_array_index_def)
  have m2: "c2 ! nat m = Some NaN"
    unfolding c2_def using assms l1 by (intro entrada_fold_nan) auto
  have lm: "nat m < length c2"
    using assms l1 by (simp add: c2_def entrada_fold_length is_array_index_def)
  have g2: "arr_get c2 (nat m) = NaN"
    using m2 lm by (simp add: arr_get_def)
  have l3: "nat m < length c3"
    using lm by (auto simp: c3_def length_arr_add)
  have m3: "c3 ! nat m = Some NaN"
    using lm m2 g2 by (auto simp: c3_def nth_arr_add_below)
  have "nat m \<noteq> 23"
    using assms(1) by simp
  then show ?thesis
    unfolding cf using l3 m3 by (simp add: nth_arr_add_below)
qed

lemma cashflow_inter_nan:
  assumes "0 < payInterPct cfg" "24 \<le> payInterMonth cfg" "is_array_index (payInterMonth cfg)"
  shows "calcCashflowForUnit cfg u catIdx ! nat (payInterMonth cfg) = Some NaN"
proof -
  define e where "e = jdiv (Fin (entradaPct cfg / 100 * applyDiscount cfg (valor u) catIdx))
      (Fin (of_int (entradaMonths cfg)))"
  define c1 where "c1 = arr_add (replicate 24 (Some (Fin 0))) 0
      (Fin (payAtoPct cfg / 100 * applyDiscount cfg (valor u) catIdx))"
  define c2 where "c2 = foldl (\<lambda>cf m. arr_add cf m e) c1 [1..entradaMonths cfg]"
  define y where "y = updateValueByINCC cfg
      (payInterPct cfg / 100 * applyDiscount cfg (valor u) catIdx) (payInterMonth cfg)"
  define c3 where "c3 = arr_add c2 (payInterMonth cfg) y"
  have cf: "calcCashflowForUnit cfg u catIdx = arr_add c3 23
      (updateValueByIPCA cfg (payChavesPct cfg / 100 * applyDiscount cfg (valor u) catIdx) 23)"
    using assms(1) by (simp add: calcCashflowForUnit_def Let_def c3_def c2_def c1_def e_def y_def)
  have l1: "length c1 = 24"
    by (simp add: c1_def length_arr_add is_array_index_def)
  have g2: "arr_get c2 (nat (payInterMonth cfg)) = NaN"
    unfolding c2_def using l1 assms by (intro arr_get_fold_beyond)
  have l3: "nat (payInterMonth cfg) < length c3"
    using assms by (simp add: c3_def length_arr_add)
  have m3: "c3 ! nat (payInterMonth cfg) = Some NaN"
    using assms g2 by (simp add: c3_def nth_arr_add_same)
  have "nat (payInterMonth cfg) \<noteq> 23"
    using assms(2) by simp
  then show ?thesis
    unfolding cf using l3 m3 by (simp add: nth_arr_add_below)
qed

lemma arr_add_non_index: "\<not> is_array_index i \<Longrightarrow> arr_add a i v = a"
  by (simp add: arr_add_def)

lemma cashflow_inter_non_index:
  assumes "\<not> is_array_index (payInterMonth cfg)"
  shows "calcCashflowForUnit cfg u catIdx = calcCashflowForUnit (cfg\<lparr>payInterPct := 0\<rparr>) u catIdx"
proof -
  have d: "applyDiscount (cfg\<lparr>payInterPct := 0\<rparr>) v i = applyDiscount cfg v i" for v i
    by (simp add: applyDiscount_def)
  have k: "updateValueByIPCA (cfg\<lparr>payInterPct := 0\<rparr>) v i = updateValueByIPCA cfg v i" for v i
    by (simp add: updateValueByIPCA_def)
  show ?thesis
    by (simp add: calcCashflowForUnit_def Let_def d k arr_add_non_index [OF assms])
qed

lemma cashflow_no_installments:
  assumes "entradaMonths cfg \<le> 0"
  shows "calcCashflowForUnit cfg u catIdx = calcCashflowForUnit (cfg\<lparr>entradaPct := p\<rparr>) u catIdx"
proof -
  have d: "applyDiscount (cfg\<lparr>entradaPct := p\<rparr>) v i = applyDiscount cfg v i" for v i
    by (simp add: applyDiscount_def)
  have k: "updateValueByIPCA (cfg\<lparr>entradaPct := p\<rparr>) v i = updateValueByIPCA cfg v i"
    "updateValueByINCC (cfg\<lparr>entradaPct := p\<rparr>) v i = updateValueByINCC cfg v i" for v i
    by (simp_all add: updateValueByIPCA_def updateValueByINCC_def)
  have e: "[1..entradaMonths cfg] = []" using assms by simp
  show ?thesis
    by (simp add: calcCashflowForUnit_def Let_def d k e)
qed

lemma cashflow_untouched_month:
  assumes em: "entradaMonths cfg \<le> 0"
    and r: "0 < payInterPct cfg \<longrightarrow> payInterMonth cfg \<le> 23"
    and m: "1 \<le> m" "m \<le> 22" "0 < payInterPct cfg \<longrightarrow> int m \<noteq> payInterMonth cfg"
  shows "calcCashflowForUnit cfg u catIdx ! m = Some (Fin 0)"
proof (cases "0 < payInterPct cfg \<and> payInterMonth cfg < 0")
  case True
  then have n: "\<not> is_array_index (payInterMonth cfg)" by (simp add: is_array_index_def)
  have "entradaMonths (cfg\<lparr>payInterPct := 0\<rparr>) \<le> 23" using em by simp
  moreover have "0 < payInterPct (cfg\<lparr>payInterPct := 0\<rparr>) \<Longrightarrow>
      0 \<le> payInterMonth (cfg\<lparr>payInterPct := 0\<rparr>) \<and> payInterMonth (cfg\<lparr>payInterPct := 0\<rparr>) \<le> 23"
    by simp
  ultimately show ?thesis
    unfolding cashflow_inter_non_index [OF n]
    by (subst cashflow_in_range) (use em m in \<open>auto simp: vec_def\<close>)
next
  case False
  then show ?thesis
    by (subst cashflow_in_range) (use em r m in \<open>auto simp: vec_def\<close>)
qed

section \<open>Discount policy\<close>



section \<open>Escalation\<close>




section \<open>The legs of the cash flow\<close>




section \<open>Length of the cash-flow vector\<close>





section \<open>Degenerate inputs\<close>

text \<open>
  Claim C5, amended. For degenerate inputs \<^verbatim>\<open>calcCashflowForUnit\<close> raises no error and
  clamps nothing; it returns an array all the same, and nothing below depends on how the
  arithmetic rounds.

  \<^item> With \<^verbatim>\<open>entradaMonths\<close> 0 or less the loop body never runs: the down payment is
    dropped, that is, the result is the same for every value \<open>p\<close> of \<^verbatim>\<open>entradaPct\<close>, and
    the quotient by \<^verbatim>\<open>entradaMonths\<close> is never stored. When moreover the intermediate
    payment is off or its month is at most 23, the result has 24 entries, and each month
    from 1 to 22 other than the month of an intermediate payment holds 0.
  \<^item> With \<^verbatim>\<open>entradaMonths\<close> 24 or more the array is longer than 24 entries, and every
    month \<open>m\<close> from 24 to \<^verbatim>\<open>entradaMonths\<close> that is an array index (\<open>m < 2^32 - 1\<close>)
    holds \<^verbatim>\<open>NaN\<close>.
  \<^item> With \<^verbatim>\<open>payInterPct > 0\<close> and \<^verbatim>\<open>payInterMonth\<close> from 24 up to \<open>2^32 - 2\<close> the array
    is longer than 24 entries and the entry at \<^verbatim>\<open>payInterMonth\<close> is \<^verbatim>\<open>NaN\<close>.
  \<^item> With \<^verbatim>\<open>payInterMonth\<close> negative, or \<open>2^32 - 1\<close> or more, the month is not an array
    index and the intermediate payment is dropped: the vector is the one for
    \<^verbatim>\<open>payInterPct = 0\<close> (so the array does not grow for such a month).
\<close>

theorem cashflow_degenerate_unguarded:
  "(entradaMonths cfg \<le> 0 \<longrightarrow>
      calcCashflowForUnit cfg u catIdx = calcCashflowForUnit (cfg\<lparr>entradaPct := p\<rparr>) u catIdx \<and>
      ((0 < payInterPct cfg \<longrightarrow> payInterMonth cfg \<le> 23) \<longrightarrow>
         length (calcCashflowForUnit cfg u catIdx) = 24 \<and>
         (\<forall>m. 1 \<le> m \<and> m \<le> 22 \<and> (0 < payInterPct cfg \<longrightarrow> int m \<noteq> payInterMonth cfg) \<longrightarrow>
              calcCashflowForUnit cfg u catIdx ! m = Some (Fin 0)))) \<and>
   (24 \<le> entradaMonths cfg \<longrightarrow>
      24 < length (calcCashflowForUnit cfg u catIdx) \<and>
      (\<forall>m. 24 \<le> m \<and> m \<le> entradaMonths cfg \<and> m < 4294967295 \<longrightarrow>
           calcCashflowForUnit cfg u catIdx ! nat m = Some NaN)) \<and>
   (0 < payInterPct cfg \<and> 24 \<le> payInterMonth cfg \<and> payInterMonth cfg < 4294967295 \<longrightarrow>
      24 < length (calcCashflowForUnit cfg u catIdx) \<and>
      calcCashflowForUnit cfg u catIdx ! nat (payInterMonth cfg) = Some NaN) \<and>
   (payInterMonth cfg < 0 \<or> 4294967295 \<le> payInterMonth cfg \<longrightarrow>
      calcCashflowForUnit cfg u catIdx = calcCashflowForUnit (cfg\<lparr>payInterPct := 0\<rparr>) u catIdx)"
proof -
  have len: "length (calcCashflowForUnit cfg u catIdx) = 24"
    if "entradaMonths cfg \<le> 0" "0 < payInterPct cfg \<longrightarrow> payInterMonth cfg \<le> 23"
    unfolding cashflow_length using that by (auto simp: is_array_index_def)
  have small: "calcCashflowForUnit cfg u catIdx = calcCashflowForUnit (cfg\<lparr>entradaPct := p\<rparr>) u catIdx \<and>
      ((0 < payInterPct cfg \<longrightarrow> payInterMonth cfg \<le> 23) \<longrightarrow>
         length (calcCashflowForUnit cfg u catIdx) = 24 \<and>
         (\<forall>m. 1 \<le> m \<and> m \<le> 22 \<and> (0 < payInterPct cfg \<longrightarrow> int m \<noteq> payInterMonth cfg) \<longrightarrow>
              calcCashflowForUnit cfg u catIdx ! m = Some (Fin 0)))"
    if em: "entradaMonths cfg \<le> 0"
    using cashflow_no_installments [OF em] len [OF em] cashflow_untouched_month [OF em]
    by blast
  have large: "24 < length (calcCashflowForUnit cfg u catIdx) \<and>
      (\<forall>m. 24 \<le> m \<and> m \<le> entradaMonths cfg \<and> m < 4294967295 \<longrightarrow>
           calcCashflowForUnit cfg u catIdx ! nat m = Some NaN)"
    if e: "24 \<le> entradaMonths cfg"
  proof (intro conjI allI impI)
    show "24 < length (calcCashflowForUnit cfg u catIdx)"
      unfolding cashflow_length using e
      by (cases "entradaMonths cfg \<le> 4294967294") (auto simp: min_def)
  next
    fix m
    assume "24 \<le> m \<and> m \<le> entradaMonths cfg \<and> m < 4294967295"
    then show "calcCashflowForUnit cfg u catIdx ! nat m = Some NaN"
      by (intro cashflow_entrada_nan) (auto simp: is_array_index_def)
  qed
  have inter: "24 < length (calcCashflowForUnit cfg u catIdx) \<and>
      calcCashflowForUnit cfg u catIdx ! nat (payInterMonth cfg) = Some NaN"
    if p: "0 < payInterPct cfg \<and> 24 \<le> payInterMonth cfg \<and> payInterMonth cfg < 4294967295"
  proof
    show "24 < length (calcCashflowForUnit cfg u catIdx)"
      unfolding cashflow_length using p by (auto simp: is_array_index_def)
    show "calcCashflowForUnit cfg u catIdx ! nat (payInterMonth cfg) = Some NaN"
      using p by (intro cashflow_inter_nan) (auto simp: is_array_index_def)
  qed
  have dropped: "calcCashflowForUnit cfg u catIdx = calcCashflowForUnit (cfg\<lparr>payInterPct := 0\<rparr>) u catIdx"
    if "payInterMonth cfg < 0 \<or> 4294967295 \<le> payInterMonth cfg"
    using that by (intro cashflow_inter_non_index) (auto simp: is_array_index_def)
  show ?thesis
    using small large inter dropped by blast
qed

theorem cashflow_degenerate_unguarded_witness:
  "calcCashflowForUnit (scenario_config\<lparr>entradaMonths := 0\<rparr>) apto101 0 =
     calcCashflowForUnit (scenario_config\<lparr>entradaMonths := 0, entradaPct := 0\<rparr>) apto101 0 \<and>
   length (calcCashflowForUnit (scenario_config\<lparr>entradaMonths := 0\<rparr>) apto101 0) = 24 \<and>
   calcCashflowForUnit (scenario_config\<lparr>entradaMonths := 0\<rparr>) apto101 0 ! 1 = Some (Fin 0) \<and>
   24 < length (calcCashflowForUnit (default_config\<lparr>entradaMonths := 25\<rparr>) apto101 0) \<and>
   calcCashflowForUnit (default_config\<lparr>entradaMonths := 25\<rparr>) apto101 0 ! 25 = Some NaN \<and>
   24 < length (calcCashflowForUnit (default_config\<lparr>payInterPct := 10, payInterMonth := 24\<rparr>)
     apto101 0) \<and>
   calcCashflowForUnit (default_config\<lparr>payInterPct := 10, payInterMonth := 24\<rparr>) apto101 0 ! 24
     = Some NaN \<and>
   calcCashflowForUnit (default_config\<lparr>payInterPct := 10, payInterMonth := 4294967295\<rparr>) apto101 0 =
     calcCashflowForUnit (default_config\<lparr>payInterPct := 0, payInterMonth := 4294967295\<rparr>) apto101 0"
proof -
  have pre0: "entradaMonths (scenario_config\<lparr>entradaMonths := 0\<rparr>) \<le> 0" by simp
  note z = cashflow_degenerate_unguarded [of "scenario_config\<lparr>entradaMonths := 0\<rparr>" apto101 0 0,
      THEN conjunct1, THEN mp, OF pre0]
  have a1: "calcCashflowForUnit (scenario_config\<lparr>entradaMonths := 0\<rparr>) apto101 0 =
     calcCashflowForUnit (scenario_config\<lparr>entradaMonths := 0, entradaPct := 0\<rparr>) apto101 0"
    using z [THEN conjunct1] by simp
  have r: "0 < payInterPct (scenario_config\<lparr>entradaMonths := 0\<rparr>) \<longrightarrow>
      payInterMonth (scenario_config\<lparr>entradaMonths := 0\<rparr>) \<le> 23"
    by (simp add: scenario_config_def default_config_def)
  note z2 = z [THEN conjunct2, THEN mp, OF r]
  have a2: "length (calcCashflowForUnit (scenario_config\<lparr>entradaMonths := 0\<rparr>) apto101 0) = 24"
    using z2 by (rule conjunct1)
  have a3: "calcCashflowForUnit (scenario_config\<lparr>entradaMonths := 0\<rparr>) apto101 0 ! 1 = Some (Fin 0)"
    by (rule z2 [THEN conjunct2, rule_format, of 1])
      (simp add: scenario_config_def default_config_def)
  have pre: "24 \<le> entradaMonths (default_config\<lparr>entradaMonths := 25\<rparr>)"
    by (simp add: default_config_def)
  note big = cashflow_degenerate_unguarded [of "default_config\<lparr>entradaMonths := 25\<rparr>" apto101 0 0,
      THEN conjunct2, THEN conjunct1, rule_format, OF pre]
  have b1: "24 < length (calcCashflowForUnit (default_config\<lparr>entradaMonths := 25\<rparr>) apto101 0)"
    using big by (rule conjunct1)
  have b2: "calcCashflowForUnit (default_config\<lparr>entradaMonths := 25\<rparr>) apto101 0 ! nat 25
      = Some NaN"
    by (rule big [THEN conjunct2, rule_format, of 25]) (simp add: default_config_def)
  have c: "24 < length (calcCashflowForUnit (default_config\<lparr>payInterPct := 10, payInterMonth := 24\<rparr>)
        apto101 0) \<and>
      calcCashflowForUnit (default_config\<lparr>payInterPct := 10, payInterMonth := 24\<rparr>) apto101 0
      ! nat 24 = Some NaN"
    using cashflow_degenerate_unguarded
      [of "default_config\<lparr>payInterPct := 10, payInterMonth := 24\<rparr>" apto101 0 0]
    by (simp add: default_config_def)
  have d: "calcCashflowForUnit (default_config\<lparr>payInterPct := 10, payInterMonth := 4294967295\<rparr>)
       apto101 0 =
     calcCashflowForUnit (default_config\<lparr>payInterPct := 0, payInterMonth := 4294967295\<rparr>) apto101 0"
    using cashflow_degenerate_unguarded
      [of "default_config\<lparr>payInterPct := 10, payInterMonth := 4294967295\<rparr>" apto101 0 0]
    by (simp add: default_config_def)
  show ?thesis
    using a1 a2 a3 b1 b2 c d by simp
qed

text \<open>
  Claim C5 as stated fails: with \<^verbatim>\<open>entradaMonths = 0\<close> the initial configuration gives
  24 zeros (the down payment of 30% is dropped without an error), and with
  \<^verbatim>\<open>payInterPct = 10\<close>, \<^verbatim>\<open>payInterMonth = 30\<close> the result has 31 entries, the last of
  them \<^verbatim>\<open>NaN\<close>.
\<close>

theorem cashflow_degenerate_counterexample:
  "calcCashflowForUnit (default_config\<lparr>entradaMonths := 0\<rparr>) apto101 0 =
     replicate 24 (Some (Fin 0)) \<and>
   length (calcCashflowForUnit (default_config\<lparr>payInterPct := 10, payInterMonth := 30\<rparr>)
     apto101 0) = 31 \<and>
   calcCashflowForUnit (default_config\<lparr>payInterPct := 10, payInterMonth := 30\<rparr>) apto101 0 ! 30
     = Some NaN"
proof -
  have "calcCashflowForUnit (default_config\<lparr>entradaMonths := 0\<rparr>) apto101 0 =
      replicate 24 (Some (Fin 0))"
  proof -
    have "entradaMonths (default_config\<lparr>entradaMonths := 0\<rparr>) \<le> 23"
      by (simp add: default_config_def)
    moreover have "\<not> 0 < payInterPct (default_config\<lparr>entradaMonths := 0\<rparr>)"
      by (simp add: default_config_def)
    ultimately show ?thesis
      unfolding zeros_vec
      by (subst cashflow_in_range) (auto intro!: vec_cong simp: default_config_def)
  qed
  moreover have "length (calcCashflowForUnit
      (default_config\<lparr>payInterPct := 10, payInterMonth := 30\<rparr>) apto101 0) = 31"
    by (simp add: cashflow_length default_config_def is_array_index_def)
  moreover have "calcCashflowForUnit
      (default_config\<lparr>payInterPct := 10, payInterMonth := 30\<rparr>) apto101 0 ! nat 30 = Some NaN"
    using cashflow_inter_nan [of "default_config\<lparr>payInterPct := 10, payInterMonth := 30\<rparr>" apto101 0]
    by (simp add: default_config_def is_array_index_def)
  ultimately show ?thesis by simp
qed

section \<open>Payback\<close>

declare payback_loop.simps [simp del]

lemma cumulative_Suc: "cumulative flows (Suc i) = jadd (cumulative flows i) (arr_get flows (Suc i))"
  by (simp add: cumulative_def)

lemma cumulative_0: "cumulative flows 0 = jadd (Fin 0) (arr_get flows 0)"
  by (simp add: cumulative_def)

lemma payback_loop_spec:
  assumes "i \<le> length flows"
    and "acc = foldl jadd (Fin 0) (map (arr_get flows) [0..<i])"
    and "\<forall>j<i. \<not> jle (Fin 0) (cumulative flows j)"
  shows "payback_loop flows i acc \<le> length flows \<and>
     (\<forall>j<payback_loop flows i acc. \<not> jle (Fin 0) (cumulative flows j)) \<and>
     (payback_loop flows i acc < length flows \<longrightarrow>
        jle (Fin 0) (cumulative flows (payback_loop flows i acc)))"
  using assms
proof (induction flows i acc rule: payback_loop.induct)
  case (1 flows i acc)
  have next_acc: "jadd acc (arr_get flows i) = cumulative flows i"
    using "1.prems"(2) by (simp add: cumulative_def)
  show ?case
  proof (cases "i < length flows")
    case False
    with "1.prems" show ?thesis
      by (subst (1 2 3 4) payback_loop.simps) simp
  next
    case True
    show ?thesis
    proof (cases "jle (Fin 0) (jadd acc (arr_get flows i))")
      case hit: True
      then have "payback_loop flows i acc = i"
        using True by (subst payback_loop.simps) simp
      with hit True "1.prems"(3) next_acc show ?thesis by simp
    next
      case miss: False
      have step: "payback_loop flows i acc = payback_loop flows (i + 1) (jadd acc (arr_get flows i))"
        using True miss by (subst payback_loop.simps) simp
      have "\<forall>j<i + 1. \<not> jle (Fin 0) (cumulative flows j)"
        using "1.prems"(3) miss next_acc by (auto simp: less_Suc_eq)
      moreover have "jadd acc (arr_get flows i) = foldl jadd (Fin 0) (map (arr_get flows) [0..<i + 1])"
        using next_acc by (simp add: cumulative_def)
      ultimately show ?thesis
        unfolding step using "1.IH" [OF True miss] True by simp
    qed
  qed
qed

lemma foldl_jadd_Fin: "foldl jadd (Fin a) (map Fin ys) = Fin (a + sum_list ys)"
  by (induction ys arbitrary: a) (simp_all add: add.assoc)

lemma cumulative_finite:
  assumes "j < length xs"
  shows "cumulative (map (Some \<circ> Fin) xs) j = Fin (sum_list (take (Suc j) xs))"
proof -
  have "map (arr_get (map (Some \<circ> Fin) xs)) [0..<Suc j] = map Fin (take (Suc j) xs)"
    using assms by (intro nth_equalityI) (auto simp: arr_get_def simp del: upt_Suc)
  then show ?thesis
    unfolding cumulative_def by (simp only: foldl_jadd_Fin) simp
qed



section \<open>Return on investment\<close>

lemma reduce_sum_finite: "reduce_sum (map (Some \<circ> Fin) xs) = Fin (sum_list xs)"
proof -
  have "foldl (\<lambda>acc c. case c of None \<Rightarrow> acc | Some v \<Rightarrow> jadd acc v) (Fin a)
      (map (Some \<circ> Fin) xs) = Fin (a + sum_list xs)" for a
    by (induction xs arbitrary: a) (simp_all add: add.assoc)
  from this [of 0] show ?thesis by (simp add: reduce_sum_def)
qed

lemma spread_finite: "spread (map (Some \<circ> Fin) xs) = map Fin xs"
  by (simp add: spread_def)

lemma math_min_step:
  "foldl (\<lambda>m x. if m = NaN \<or> x = NaN then NaN else if jlt x m then x else m) (Fin a) (map Fin xs)
     = Fin (Min (insert a (set xs)))"
proof (induction xs arbitrary: a)
  case Nil
  then show ?case by simp
next
  case (Cons x xs)
  have "Min (insert a (insert x (set xs))) = Min (insert (min x a) (set xs))"
  proof (cases "set xs = {}")
    case True
    then show ?thesis by (simp add: min.commute)
  next
    case False
    then show ?thesis by (simp add: min.assoc min.commute)
  qed
  then show ?case
    using Cons.IH [of "min x a"]
    by (auto simp: min_def)
qed

lemma math_min_finite:
  "math_min (map Fin xs) = (if xs = [] then PInf else Fin (Min (set xs)))"
proof (cases xs)
  case Nil
  then show ?thesis by (simp add: math_min_def)
next
  case (Cons x ys)
  then show ?thesis
    using math_min_step [of x ys] by (simp add: math_min_def)
qed


lemma calcROI_finite:
  assumes "xs \<noteq> []"
  shows "calcROI (map (Some \<circ> Fin) xs) =
     (if - Min (set xs) \<le> 0 then RoiNumber 0
      else toFixed2 (Fin (sum_list xs / (- Min (set xs)) * 100)))"
proof -
  define mn where "mn = Min (set xs)"
  have m: "math_min (spread (map (Some \<circ> Fin) xs)) = Fin mn"
    using assms by (simp add: spread_finite math_min_finite mn_def)
  have "calcROI (map (Some \<circ> Fin) xs) =
     (if - mn \<le> 0 then RoiNumber 0 else toFixed2 (Fin (sum_list xs / (- mn) * 100)))"
    unfolding calcROI_def Let_def reduce_sum_finite m by simp
  then show ?thesis by (simp only: mn_def)
qed



section \<open>Rate of return\<close>

declare tir_loop.simps [simp del]









section \<open>Aggregation\<close>

lemma add_flow_prefix:
  assumes "length bs = length as"
  shows "k \<le> length bs \<Longrightarrow>
     foldl (\<lambda>acc (m, c). case c of None \<Rightarrow> acc
                            | Some v \<Rightarrow> arr_set acc m (addn (arr_get acc m) v))
       (map Some as) (enumerate 0 (map Some (take k bs))) =
     map Some (map2 addn (take k as) (take k bs) @ drop k as)"
proof (induction k)
  case 0
  then show ?case by simp
next
  case (Suc k)
  then have k: "k < length bs" "k < length as" using assms by simp_all
  have t: "take (Suc k) bs = take k bs @ [bs ! k]" "take (Suc k) as = take k as @ [as ! k]"
    using k by (simp_all add: take_Suc_conv_app_nth)
  define X where "X = map Some (map2 addn (take k as) (take k bs) @ drop k as)"
  have lx: "length X = length as" using k by (simp add: X_def)
  have xk: "arr_get X k = as ! k"
    using k by (simp add: arr_get_def X_def nth_append)
  have "foldl (\<lambda>acc (m, c). case c of None \<Rightarrow> acc
                            | Some v \<Rightarrow> arr_set acc m (addn (arr_get acc m) v))
       (map Some as) (enumerate 0 (map Some (take (Suc k) bs))) =
     arr_set X k (addn (arr_get X k) (bs ! k))"
    using Suc.IH k by (simp add: t enumerate_append_eq X_def)
  also have "\<dots> = map Some (map2 addn (take (Suc k) as) (take (Suc k) bs) @ drop (Suc k) as)"
    unfolding xk using k lx
    by (intro nth_equalityI) (auto simp: arr_set_def X_def nth_append t nth_list_update)
  finally show ?case .
qed

lemma add_flow_full:
  assumes "length bs = length as"
  shows "add_flow addn (map Some as) (map Some bs) = map Some (map2 addn as bs)"
  using add_flow_prefix [OF assms, of "length bs" addn] assms by (simp add: add_flow_def)

lemma full_vector: "None \<notin> set v \<Longrightarrow> map Some (map the v) = v"
  by (induction v) auto

lemma foldl_map2_cell:
  assumes "\<forall>w\<in>set ws. length w = length zs" "m < length zs"
  shows "length (foldl (map2 addn) zs ws) = length zs \<and>
     foldl (map2 addn) zs ws ! m = foldl addn (zs ! m) (map (\<lambda>w. w ! m) ws)"
  using assms
proof (induction ws arbitrary: zs)
  case Nil
  then show ?case by simp
next
  case (Cons w ws)
  then have l: "length (map2 addn zs w) = length zs" by simp
  have "\<forall>w'\<in>set ws. length w' = length (map2 addn zs w)" "m < length (map2 addn zs w)"
    using Cons.prems l by simp_all
  from Cons.IH [OF this] show ?case
    using Cons.prems by (simp add: l)
qed

lemma aggregate_from:
  assumes "\<forall>v\<in>set vs. length v = length zs \<and> None \<notin> set v"
  shows "foldl (add_flow addn) (map Some zs) vs =
     map Some (foldl (map2 addn) zs (map (map the) vs))"
  using assms
proof (induction vs arbitrary: zs)
  case Nil
  then show ?case by simp
next
  case (Cons v vs)
  then have v: "length v = length zs" "None \<notin> set v" by simp_all
  have "add_flow addn (map Some zs) (map Some (map the v)) =
      map Some (map2 addn zs (map the v))"
    by (rule add_flow_full) (simp add: v)
  then have step: "add_flow addn (map Some zs) v = map Some (map2 addn zs (map the v))"
    by (simp only: full_vector [OF v(2)])
  have "\<forall>v'\<in>set vs. length v' = length (map2 addn zs (map the v)) \<and> None \<notin> set v'"
    using Cons.prems v by simp
  from Cons.IH [OF this] show ?case
    by (simp add: step)
qed

lemma aggregate_cell:
  assumes "\<forall>v\<in>set vs. length v = 24 \<and> None \<notin> set v"
  shows "length (aggregate_with addn vs) = 24"
    and "m < 24 \<Longrightarrow>
      aggregate_with addn vs ! m = Some (foldl addn (Fin 0) (map (\<lambda>v. arr_get v m) vs))"
proof -
  have z: "replicate 24 (Some (Fin 0)) = map Some (replicate 24 (Fin 0))" by simp
  have a: "aggregate_with addn vs =
      map Some (foldl (map2 addn) (replicate 24 (Fin 0)) (map (map the) vs))"
    unfolding aggregate_with_def z using assms by (intro aggregate_from) simp
  have w: "\<forall>w\<in>set (map (map the) vs). length w = length (replicate 24 (Fin 0 :: jsnum))"
    using assms by simp
  show "length (aggregate_with addn vs) = 24"
    unfolding a using foldl_map2_cell [OF w, of 0 addn] by simp
  assume m: "m < 24"
  have g: "map ((\<lambda>w. w ! m) \<circ> map the) vs = map (\<lambda>v. arr_get v m) vs"
  proof (rule map_cong [OF refl])
    fix v assume "v \<in> set vs"
    with assms have "length v = 24" "None \<notin> set v" by auto
    with m show "((\<lambda>w. w ! m) \<circ> map the) v = arr_get v m"
      by (cases "v ! m") (auto simp: arr_get_def in_set_conv_nth)
  qed
  have c: "foldl (map2 addn) (replicate 24 (Fin 0)) (map (map the) vs) ! m =
      foldl addn (Fin 0) (map (\<lambda>v. arr_get v m) vs)"
    using foldl_map2_cell [OF w, of m addn] m by (simp add: g)
  have "m < length (foldl (map2 addn) (replicate 24 (Fin 0)) (map (map the) vs))"
    using foldl_map2_cell [OF w, of m addn] m by simp
  then show "aggregate_with addn vs ! m = Some (foldl addn (Fin 0) (map (\<lambda>v. arr_get v m) vs))"
    unfolding a by (simp add: c)
qed







lemma paid_at_signing_full: "length (paid_at_signing x) = 24 \<and> None \<notin> set (paid_at_signing x)"
  by (simp add: paid_at_signing_def)





section \<open>Aggregation with rounded addition\<close>










lemma paid_at_signing_vec: "paid_at_signing x = vec 24 (\<lambda>m. if m = 0 then x else 0)"
  by (rule nth_equalityI)
    (auto simp: paid_at_signing_def vec_def nth_Cons' simp del: upt_Suc)

lemma paid_at_signing_flow:
  "calcCashflowForUnit signing_config u catIdx = paid_at_signing (valor u)"
proof -
  have "entradaMonths signing_config \<le> 23" "\<not> 0 < payInterPct signing_config"
    by (simp_all add: signing_config_def default_config_def)
  then show ?thesis
    unfolding paid_at_signing_vec
    by (subst cashflow_in_range)
      (auto intro!: vec_cong simp: signing_config_def default_config_def applyDiscount_def)
qed


section \<open>Rounding to binary64\<close>

lemma binary64_0: "binary64 0 = Fin 0"
  by (simp add: binary64_def)

lemma floor_log2_bounds:
  assumes "0 < x"
  shows "2 powi \<lfloor>log 2 x\<rfloor> \<le> x" and "x < 2 powi (\<lfloor>log 2 x\<rfloor> + 1)"
proof -
  have p: "2 powr real_of_int k = (2::real) powi k" for k
    by (simp add: powr_real_of_int')
  have "2 powr real_of_int \<lfloor>log 2 x\<rfloor> \<le> x \<and> x < 2 powr (real_of_int \<lfloor>log 2 x\<rfloor> + 1)"
    using floor_log_eq_powr_iff [of x 2 "\<lfloor>log 2 x\<rfloor>"] assms by simp
  moreover have "real_of_int \<lfloor>log 2 x\<rfloor> + 1 = real_of_int (\<lfloor>log 2 x\<rfloor> + 1)" by simp
  ultimately have "2 powr real_of_int \<lfloor>log 2 x\<rfloor> \<le> x \<and>
      x < 2 powr real_of_int (\<lfloor>log 2 x\<rfloor> + 1)"
    by (simp only:)
  then show "2 powi \<lfloor>log 2 x\<rfloor> \<le> x" and "x < 2 powi (\<lfloor>log 2 x\<rfloor> + 1)"
    by (simp_all only: p)
qed

lemma floor_log2_ge:
  assumes "2 powi k \<le> x"
  shows "k \<le> \<lfloor>log 2 x\<rfloor>"
proof (rule ccontr)
  assume "\<not> k \<le> \<lfloor>log 2 x\<rfloor>"
  then have "\<lfloor>log 2 x\<rfloor> + 1 \<le> k" by simp
  then have "(2::real) powi (\<lfloor>log 2 x\<rfloor> + 1) \<le> 2 powi k"
    by (intro power_int_increasing) simp_all
  moreover have "0 < x"
    using assms zero_less_power_int [of "2::real" k] by linarith
  ultimately show False
    using floor_log2_bounds(2) [of x] assms by linarith
qed

lemma floor_log2_le:
  assumes "0 < x" "x < 2 powi (k + 1)"
  shows "\<lfloor>log 2 x\<rfloor> \<le> k"
proof (rule ccontr)
  assume "\<not> \<lfloor>log 2 x\<rfloor> \<le> k"
  then have "k + 1 \<le> \<lfloor>log 2 x\<rfloor>" by simp
  then have "(2::real) powi (k + 1) \<le> 2 powi \<lfloor>log 2 x\<rfloor>"
    by (intro power_int_increasing) simp_all
  then show False
    using floor_log2_bounds(1) [OF assms(1)] assms(2) by linarith
qed

lemma round_ties_even_cases:
  "round_ties_even r = \<lfloor>r\<rfloor> \<or> (round_ties_even r = \<lfloor>r\<rfloor> + 1 \<and> of_int \<lfloor>r\<rfloor> < r)"
  by (auto simp: round_ties_even_def)

lemma round_ties_even_ge: "of_int N \<le> r \<Longrightarrow> N \<le> round_ties_even r"
proof -
  assume "of_int N \<le> r"
  then have "N \<le> \<lfloor>r\<rfloor>" by (simp add: le_floor_iff)
  with round_ties_even_cases [of r] show ?thesis by auto
qed

lemma round_ties_even_le: "r \<le> of_int N \<Longrightarrow> round_ties_even r \<le> N"
proof -
  assume r: "r \<le> of_int N"
  then have f: "\<lfloor>r\<rfloor> \<le> N" by (simp add: floor_le_iff)
  from round_ties_even_cases [of r] show ?thesis
  proof
    assume "round_ties_even r = \<lfloor>r\<rfloor>"
    with f show ?thesis by simp
  next
    assume a: "round_ties_even r = \<lfloor>r\<rfloor> + 1 \<and> of_int \<lfloor>r\<rfloor> < r"
    then have "of_int \<lfloor>r\<rfloor> < (of_int N :: real)" using r by linarith
    then have "\<lfloor>r\<rfloor> < N" by simp
    with a show ?thesis by simp
  qed
qed

lemma round_ties_even_of_int: "round_ties_even (of_int n) = n"
  by (simp add: round_ties_even_def)

lemma binary64_unfold:
  assumes "x \<noteq> 0" "e = max \<lfloor>log 2 \<bar>x\<bar>\<rfloor> (- 1022)"
    "n = round_ties_even (x / 2 powi (e - 52))"
  shows "binary64 x =
     (if (2::real) ^ 1024 \<le> \<bar>2 powi (e - 52) * of_int n\<bar>
      then (if 0 < x then PInf else NInf)
      else Fin (2 powi (e - 52) * of_int n))"
  unfolding binary64_def Let_def assms(2,3) using assms(1) by (simp only: if_False)

lemma binary64_nonneg:
  assumes "0 \<le> x"
  shows "jle (Fin 0) (binary64 x)"
proof (cases "x = 0")
  case True
  then show ?thesis by (simp add: binary64_def)
next
  case False
  define e where "e = max \<lfloor>log 2 \<bar>x\<bar>\<rfloor> (- 1022)"
  define n where "n = round_ties_even (x / 2 powi (e - 52))"
  have u: "0 < (2::real) powi (e - 52)" by simp
  then have "of_int 0 \<le> x / 2 powi (e - 52)" using assms by simp
  then have "0 \<le> n" unfolding n_def by (rule round_ties_even_ge)
  then have "0 \<le> 2 powi (e - 52) * real_of_int n" using u by simp
  with assms False show ?thesis
    unfolding binary64_unfold [OF False e_def n_def] by simp
qed

lemma binary64_overflow:
  assumes "2 ^ 1024 \<le> x"
  shows "binary64 x = PInf"
proof -
  have x: "0 < x" using assms by (smt (verit) zero_less_power)
  have "(2::real) powi 1024 \<le> x" using assms by simp
  then have L: "1024 \<le> \<lfloor>log 2 x\<rfloor>" by (rule floor_log2_ge)
  define e where "e = \<lfloor>log 2 x\<rfloor>"
  have e: "max \<lfloor>log 2 \<bar>x\<bar>\<rfloor> (- 1022) = e" using L x by (simp add: e_def)
  define n where "n = round_ties_even (x / 2 powi (e - 52))"
  have u: "0 < (2::real) powi (e - 52)" by simp
  have "2 powi e \<le> x" unfolding e_def using x by (rule floor_log2_bounds(1))
  then have "2 powi e / 2 powi (e - 52) \<le> x / 2 powi (e - 52)"
    using u by (simp add: divide_right_mono)
  moreover have "(2::real) powi e / 2 powi (e - 52) = of_int (2 ^ 52)"
    by (simp add: power_int_diff)
  ultimately have "2 ^ 52 \<le> n"
    unfolding n_def by (intro round_ties_even_ge) simp
  then have "(2::real) ^ 52 \<le> of_int n" by (metis of_int_le_iff of_int_numeral of_int_power)
  then have "(2::real) powi (e - 52) * 2 ^ 52 \<le> 2 powi (e - 52) * of_int n"
    using u by (intro mult_left_mono) simp_all
  moreover have "(2::real) powi (e - 52) * 2 ^ 52 = 2 powi e"
    by (simp add: power_int_diff)
  moreover have "(2::real) powi 1024 \<le> 2 powi e"
    using L by (intro power_int_increasing) (simp_all add: e_def)
  moreover have "(2::real) powi 1024 = 2 ^ 1024" by simp
  ultimately have "2 ^ 1024 \<le> 2 powi (e - 52) * real_of_int n" by linarith
  then have big: "2 ^ 1024 \<le> \<bar>2 powi (e - 52) * real_of_int n\<bar>" by linarith
  have "x \<noteq> 0" using x by simp
  from binary64_unfold [OF this e [symmetric] n_def] big x show ?thesis
    by simp
qed

lemma round_ties_even_near: "\<bar>of_int (round_ties_even r) - r\<bar> \<le> 1"
proof -
  have f: "of_int \<lfloor>r\<rfloor> \<le> r" "r < of_int \<lfloor>r\<rfloor> + 1" by linarith+
  from round_ties_even_cases [of r] show ?thesis
  proof
    assume "round_ties_even r = \<lfloor>r\<rfloor>"
    then have "of_int (round_ties_even r) = (of_int \<lfloor>r\<rfloor> :: real)" by simp
    with f show ?thesis by linarith
  next
    assume "round_ties_even r = \<lfloor>r\<rfloor> + 1 \<and> of_int \<lfloor>r\<rfloor> < r"
    then have "of_int (round_ties_even r) = of_int \<lfloor>r\<rfloor> + (1::real)" by simp
    with f show ?thesis by linarith
  qed
qed

lemma binary64_le_one:
  assumes "x \<le> 1"
  shows "binary64 x = NInf \<or> (\<exists>y\<le>1. binary64 x = Fin y)"
proof (cases "x = 0")
  case True
  then show ?thesis by (simp add: binary64_def)
next
  case False
  define e where "e = max \<lfloor>log 2 \<bar>x\<bar>\<rfloor> (- 1022)"
  define n where "n = round_ties_even (x / 2 powi (e - 52))"
  note b = binary64_unfold [OF False e_def n_def]
  have u: "0 < (2::real) powi (e - 52)" by simp
  have y: "2 powi (e - 52) * real_of_int n \<le> 1"
  proof (cases "0 < x")
    case True
    then have "x < 2 powi (0 + 1)" using assms by simp
    with True have "\<lfloor>log 2 x\<rfloor> \<le> 0" by (rule floor_log2_le)
    then have e0: "e \<le> 0" using True by (simp add: e_def)
    have inv: "1 / (2::real) powi (e - 52) = of_int (2 ^ nat (52 - e))"
      using e0 by (simp add: power_int_def field_simps)
    have "x / 2 powi (e - 52) \<le> 1 / 2 powi (e - 52)"
      using assms u by (simp add: divide_right_mono)
    then have "n \<le> 2 ^ nat (52 - e)"
      unfolding n_def inv by (rule round_ties_even_le)
    then have "real_of_int n \<le> 1 / 2 powi (e - 52)"
      unfolding inv by (simp only: of_int_le_iff)
    then show ?thesis using u by (simp add: field_simps)
  next
    case neg: False
    then have "x / 2 powi (e - 52) \<le> of_int 0" using u by (simp add: divide_nonpos_pos)
    then have "n \<le> 0" unfolding n_def by (rule round_ties_even_le)
    then have "2 powi (e - 52) * real_of_int n \<le> 0"
      using u by (simp add: mult_nonneg_nonpos)
    then show ?thesis by simp
  qed
  show ?thesis
  proof (cases "(2::real) ^ 1024 \<le> \<bar>2 powi (e - 52) * of_int n\<bar>")
    case big: True
    have "\<not> 0 < x"
    proof
      assume "0 < x"
      then have "of_int 0 \<le> x / 2 powi (e - 52)" using u by simp
      then have "0 \<le> n" unfolding n_def by (rule round_ties_even_ge)
      then have "0 \<le> 2 powi (e - 52) * real_of_int n" using u by simp
      with big y show False by simp
    qed
    with big show ?thesis unfolding b by simp
  next
    case False
    with y show ?thesis unfolding b by simp
  qed
qed

lemma binary64_finite:
  assumes "\<bar>x\<bar> \<le> B" "1 \<le> B" "B \<le> 2 ^ 1022"
  shows "\<exists>y. binary64 x = Fin y \<and> \<bar>y\<bar> \<le> 2 * B"
proof (cases "x = 0")
  case True
  then show ?thesis using assms(2) by (simp add: binary64_def)
next
  case False
  define e where "e = max \<lfloor>log 2 \<bar>x\<bar>\<rfloor> (- 1022)"
  define n where "n = round_ties_even (x / 2 powi (e - 52))"
  define ulp where "ulp = (2::real) powi (e - 52)"
  note b = binary64_unfold [OF False e_def n_def]
  have u: "0 < ulp" by (simp add: ulp_def)
  have x: "0 < \<bar>x\<bar>" using False by simp
  have ulpB: "ulp \<le> B"
  proof (cases "- 1022 \<le> \<lfloor>log 2 \<bar>x\<bar>\<rfloor>")
    case True
    then have "e = \<lfloor>log 2 \<bar>x\<bar>\<rfloor>" by (simp add: e_def)
    then have "2 powi e \<le> \<bar>x\<bar>" using floor_log2_bounds(1) [OF x] by simp
    moreover have "ulp \<le> 2 powi e"
      unfolding ulp_def by (intro power_int_increasing) simp_all
    ultimately show ?thesis using assms(1) by linarith
  next
    case False
    then have "e = - 1022" by (simp add: e_def)
    then have "ulp = 2 powi (- 1074)" by (simp add: ulp_def)
    also have "\<dots> \<le> 2 powi 0" by (intro power_int_increasing) simp_all
    finally show ?thesis using assms(2) by simp
  qed
  have "\<bar>of_int n - x / ulp\<bar> \<le> 1"
    unfolding n_def ulp_def by (rule round_ties_even_near)
  then have "\<bar>of_int n - x / ulp\<bar> * ulp \<le> 1 * ulp"
    using u by (intro mult_right_mono) simp_all
  moreover have "(of_int n - x / ulp) * ulp = ulp * of_int n - x"
    using u by (simp add: field_simps)
  moreover have "\<bar>of_int n - x / ulp\<bar> * ulp = \<bar>(of_int n - x / ulp) * ulp\<bar>"
    using u by (simp add: abs_mult)
  ultimately have "\<bar>ulp * of_int n - x\<bar> \<le> ulp" by simp
  with ulpB assms(1) have y: "\<bar>ulp * of_int n\<bar> \<le> 2 * B" by linarith
  have "2 * B \<le> 2 * 2 ^ 1022" using assms(3) by simp
  also have "\<dots> < (2::real) ^ 1024" by simp
  finally have "\<not> (2::real) ^ 1024 \<le> \<bar>ulp * of_int n\<bar>" using y by linarith
  with y show ?thesis unfolding b ulp_def by simp
qed

lemma binary64_of_int:
  assumes "\<bar>n\<bar> < 2 ^ 53"
  shows "binary64 (of_int n) = Fin (of_int n)"
proof (cases "n = 0")
  case True
  then show ?thesis by (simp add: binary64_def)
next
  case False
  define x where "x = real_of_int n"
  have x0: "x \<noteq> 0" using False by (simp add: x_def)
  define e where "e = max \<lfloor>log 2 \<bar>x\<bar>\<rfloor> (- 1022)"
  define m where "m = round_ties_even (x / 2 powi (e - 52))"
  note b = binary64_unfold [OF x0 e_def m_def]
  have "1 \<le> \<bar>n\<bar>" using False by simp
  then have "1 \<le> \<bar>x\<bar>" unfolding x_def by (metis of_int_1_le_iff of_int_abs)
  then have lo: "2 powi 0 \<le> \<bar>x\<bar>" by simp
  have "real_of_int \<bar>n\<bar> < real_of_int (2 ^ 53)" using assms by (simp only: of_int_less_iff)
  then have hi: "\<bar>x\<bar> < 2 powi (52 + 1)" by (simp add: x_def)
  have "0 \<le> \<lfloor>log 2 \<bar>x\<bar>\<rfloor>" using lo by (rule floor_log2_ge)
  moreover have "\<lfloor>log 2 \<bar>x\<bar>\<rfloor> \<le> 52" using hi lo by (intro floor_log2_le) simp_all
  ultimately have e: "0 \<le> e" "e \<le> 52" by (simp_all add: e_def)
  have inv: "1 / (2::real) powi (e - 52) = of_int (2 ^ nat (52 - e))"
    using e by (simp add: power_int_def field_simps)
  have "x / 2 powi (e - 52) = x * (1 / 2 powi (e - 52))" by simp
  also have "\<dots> = of_int (n * 2 ^ nat (52 - e))" unfolding inv x_def by simp
  finally have m: "m = n * 2 ^ nat (52 - e)"
    unfolding m_def by (simp only: round_ties_even_of_int)
  have "2 powi (e - 52) * real_of_int m = x * (2 powi (e - 52) * (1 / 2 powi (e - 52)))"
    unfolding m inv x_def by simp
  then have y: "2 powi (e - 52) * real_of_int m = x" by simp
  have "\<bar>x\<bar> < 2 ^ 1024"
  proof -
    have "\<bar>x\<bar> < 2 ^ 53" using hi by simp
    also have "\<dots> < (2::real) ^ 1024" by simp
    finally show ?thesis .
  qed
  then have "binary64 x = Fin x" unfolding b y by simp
  then show ?thesis by (simp only: x_def)
qed

section \<open>Signs in the rounded builder\<close>

lemma jle0_iff: "jle (Fin 0) a \<longleftrightarrow> a = PInf \<or> (\<exists>x\<ge>0. a = Fin x)"
  by (cases a) simp_all

lemma is_finite_iff: "is_finite a \<longleftrightarrow> (\<exists>x. a = Fin x)"
  by (cases a) (simp_all add: is_finite_def)

lemma fadd_nonneg: "jle (Fin 0) a \<Longrightarrow> jle (Fin 0) b \<Longrightarrow> jle (Fin 0) (fadd a b)"
  by (cases a; cases b) (simp_all add: fadd_def binary64_nonneg)

lemma fmul_Fin: "fmul (Fin x) (Fin y) = binary64 (x * y)"
  by (simp add: fmul_def)

lemma fmul_finiteD: "is_finite (fmul a b) \<Longrightarrow> is_finite a \<and> is_finite b"
  by (cases a; cases b) (auto simp: fmul_def is_finite_def split: if_splits)

lemma fmul_nonneg:
  assumes "jle (Fin 0) a" "jle (Fin 0) b" "is_finite a" "is_finite b"
  shows "jle (Fin 0) (fmul a b)"
proof -
  from assms(3,4) obtain x y where xy: "a = Fin x" "b = Fin y"
    unfolding is_finite_iff by blast
  with assms(1,2) have "0 \<le> x * y" by simp
  then show ?thesis unfolding xy fmul_Fin by (rule binary64_nonneg)
qed

lemma fdiv_nonneg:
  assumes "jle (Fin 0) a" "0 < d"
  shows "jle (Fin 0) (fdiv a (Fin d))"
  using assms by (cases a) (simp_all add: fdiv_def binary64_nonneg)

lemma fraction_nonneg: "0 \<le> pct \<Longrightarrow> jle (Fin 0) (fdiv (Fin pct) (Fin 100))"
  by (rule fdiv_nonneg) simp_all

lemma discount_factor_nonneg:
  assumes "d \<le> 100"
  shows "jle (Fin 0) (fsub (Fin 1) (fdiv (Fin d) (Fin 100)))"
proof -
  have q: "fdiv (Fin d) (Fin 100) = binary64 (d / 100)" by (simp add: fdiv_def)
  have "d / 100 \<le> 1" using assms by simp
  from binary64_le_one [OF this] show ?thesis
  proof
    assume "binary64 (d / 100) = NInf"
    then show ?thesis by (simp add: q fsub_def)
  next
    assume "\<exists>y\<le>1. binary64 (d / 100) = Fin y"
    then obtain y where y: "y \<le> 1" "binary64 (d / 100) = Fin y" by blast
    then have "0 \<le> 1 + - y" by simp
    then have "jle (Fin 0) (binary64 (1 + - y))" by (rule binary64_nonneg)
    then show ?thesis by (simp add: q y(2) fsub_def)
  qed
qed

lemma applyDiscount64_nonneg:
  assumes "0 \<le> v" "discountPre cfg \<le> 100" "discountLaunch cfg \<le> 100"
    and "is_finite (applyDiscount64 cfg v catIdx)"
  shows "jle (Fin 0) (applyDiscount64 cfg v catIdx)"
proof -
  have band: "jle (Fin 0) (fmul (Fin v) (fsub (Fin 1) (fdiv (Fin d) (Fin 100))))"
    if "d \<le> 100" "is_finite (fmul (Fin v) (fsub (Fin 1) (fdiv (Fin d) (Fin 100))))" for d
  proof (rule fmul_nonneg)
    show "jle (Fin 0) (Fin v)" using assms(1) by simp
    show "jle (Fin 0) (fsub (Fin 1) (fdiv (Fin d) (Fin 100)))"
      using that(1) by (rule discount_factor_nonneg)
    show "is_finite (Fin v)" by (simp add: is_finite_def)
    show "is_finite (fsub (Fin 1) (fdiv (Fin d) (Fin 100)))"
      using fmul_finiteD [OF that(2)] by simp
  qed
  show ?thesis
    using assms band [of "discountPre cfg"] band [of "discountLaunch cfg"]
    by (auto simp: applyDiscount64_def)
qed

lemma leg64_nonneg:
  assumes "0 \<le> pct" "jle (Fin 0) bp" "is_finite (leg64 pct bp)"
  shows "jle (Fin 0) (leg64 pct bp)"
  unfolding leg64_def
proof (rule fmul_nonneg)
  show "jle (Fin 0) (fdiv (Fin pct) (Fin 100))" using assms(1) by (rule fraction_nonneg)
  show "jle (Fin 0) bp" by fact
  show "is_finite (fdiv (Fin pct) (Fin 100))" "is_finite bp"
    using fmul_finiteD [OF assms(3) [unfolded leg64_def]] by simp_all
qed

lemma leg64_finiteD: "is_finite (leg64 pct bp) \<Longrightarrow> is_finite bp"
  unfolding leg64_def by (drule fmul_finiteD) simp

lemma factor64_nonneg:
  assumes "- 1 \<le> rate" "0 \<le> m" "is_finite (factor64 rate m)"
  shows "jle (Fin 0) (factor64 rate m)"
proof (cases "m = 0")
  case True
  then show ?thesis by (simp add: factor64_def fpow_def)
next
  case False
  with assms(2) have m: "0 < m" by simp
  have "jle (Fin 0) (fadd (Fin 1) (Fin rate))"
    using assms(1) by (simp add: fadd_def binary64_nonneg)
  then consider "fadd (Fin 1) (Fin rate) = PInf"
    | x where "0 \<le> x" "fadd (Fin 1) (Fin rate) = Fin x"
    unfolding jle0_iff by blast
  then show ?thesis
  proof cases
    case 1
    then show ?thesis using m by (simp add: factor64_def fpow_def)
  next
    case (2 x)
    then have "jle (Fin 0) (binary64 (x ^ nat m))" by (intro binary64_nonneg) simp
    then show ?thesis using m 2(2) by (simp add: factor64_def fpow_def jpow_def)
  qed
qed

lemma cells_all_nth:
  "cells_all Q a \<longleftrightarrow> (\<forall>k<length a. \<exists>v. a ! k = Some v \<and> Q v)"
  by (auto simp: cells_all_def list_all_length split: option.splits)

lemma cells_arr_get: "cells_all Q a \<Longrightarrow> k < length a \<Longrightarrow> Q (arr_get a k)"
  by (auto simp: cells_all_nth arr_get_def)

lemma cells_no_hole: "cells_all Q a \<Longrightarrow> None \<notin> set a"
  by (auto simp: cells_all_def list_all_iff)

lemma cells_arr_add64:
  assumes closed: "\<And>x y. Q x \<Longrightarrow> Q y \<Longrightarrow> Q (fadd x y)"
    and "cells_all Q a" "length a = 24" "0 \<le> i" "i < 24" "Q v"
  shows "cells_all Q (arr_add64 a i v) \<and> length (arr_add64 a i v) = 24"
proof -
  have k: "nat i < length a" "is_array_index i"
    using assms(3,4,5) by (simp_all add: is_array_index_def)
  have s: "arr_add64 a i v = a[nat i := Some (fadd (arr_get a (nat i)) v)]"
    using k by (simp add: arr_add64_def arr_set_def)
  have "Q (fadd (arr_get a (nat i)) v)"
    using cells_arr_get [OF assms(2) k(1)] assms(6) by (rule closed)
  then show ?thesis
    unfolding s using assms(2,3) k(1) by (auto simp: cells_all_nth nth_list_update)
qed

lemma cells_entrada_fold:
  assumes closed: "\<And>x y. Q x \<Longrightarrow> Q y \<Longrightarrow> Q (fadd x y)" and "Q e"
  shows "cells_all Q a \<Longrightarrow> length a = 24 \<Longrightarrow> n \<le> 23 \<Longrightarrow>
     cells_all Q (foldl (\<lambda>cf m. arr_add64 cf m e) a [1..n]) \<and>
     length (foldl (\<lambda>cf m. arr_add64 cf m e) a [1..n]) = 24"
proof (induction "nat n" arbitrary: n)
  case 0
  then have "n \<le> 0" by simp
  with 0 show ?case by simp
next
  case (Suc j)
  then have n: "1 \<le> n" "j = nat (n - 1)" "n - 1 \<le> 23" by auto
  have ih: "cells_all Q (foldl (\<lambda>cf m. arr_add64 cf m e) a [1..n - 1]) \<and>
     length (foldl (\<lambda>cf m. arr_add64 cf m e) a [1..n - 1]) = 24"
    using Suc.hyps(1) [OF n(2) Suc.prems(1,2) n(3)] .
  have step: "foldl (\<lambda>cf m. arr_add64 cf m e) a [1..n] =
      arr_add64 (foldl (\<lambda>cf m. arr_add64 cf m e) a [1..n - 1]) n e"
    by (simp add: upto_snoc [OF n(1)])
  have "0 \<le> n" "n < 24" using n(1) Suc.prems(3) by simp_all
  from cells_arr_add64 [of Q, OF closed conjunct1 [OF ih] conjunct2 [OF ih] this assms(2)]
  show ?case unfolding step by simp
qed

lemma zeros_cells: "Q (Fin 0) \<Longrightarrow> cells_all Q (replicate 24 (Some (Fin 0)))"
  by (simp add: cells_all_def list_all_length)

text \<open>The shape of the result for months in range, whatever the amounts are.\<close>

lemma unit64_cells:
  assumes closed: "\<And>x y. Q x \<Longrightarrow> Q y \<Longrightarrow> Q (fadd x y)" and zero: "Q (Fin 0)"
    and months: "entradaMonths cfg \<le> 23"
      "0 < payInterPct cfg \<Longrightarrow> 0 \<le> payInterMonth cfg \<and> payInterMonth cfg \<le> 23"
    and ato: "Q (leg64 (payAtoPct cfg) (applyDiscount64 cfg (valor u) catIdx))"
    and mensal: "1 \<le> entradaMonths cfg \<Longrightarrow>
      Q (fdiv (leg64 (entradaPct cfg) (applyDiscount64 cfg (valor u) catIdx))
           (Fin (of_int (entradaMonths cfg))))"
    and inter: "0 < payInterPct cfg \<Longrightarrow>
      Q (updateValueByINCC64 cfg (leg64 (payInterPct cfg) (applyDiscount64 cfg (valor u) catIdx))
           (payInterMonth cfg))"
    and chaves: "Q (updateValueByIPCA64 cfg
           (leg64 (payChavesPct cfg) (applyDiscount64 cfg (valor u) catIdx)) 23)"
  shows "cells_all Q (calcCashflowForUnit64 cfg u catIdx) \<and>
     length (calcCashflowForUnit64 cfg u catIdx) = 24"
proof -
  define bp where "bp = applyDiscount64 cfg (valor u) catIdx"
  define c1 where "c1 = arr_add64 (replicate 24 (Some (Fin 0))) 0 (leg64 (payAtoPct cfg) bp)"
  have c1: "cells_all Q c1 \<and> length c1 = 24"
    unfolding c1_def bp_def
    by (rule cells_arr_add64 [of Q, OF closed zeros_cells [of Q, OF zero] _ _ _ ato]) simp_all
  define e where "e = fdiv (leg64 (entradaPct cfg) bp) (Fin (of_int (entradaMonths cfg)))"
  define c2 where "c2 = foldl (\<lambda>cf m. arr_add64 cf m e) c1 [1..entradaMonths cfg]"
  have c2: "cells_all Q c2 \<and> length c2 = 24"
  proof (cases "1 \<le> entradaMonths cfg")
    case True
    then have "Q e" unfolding e_def bp_def by (rule mensal)
    from cells_entrada_fold [of Q, OF closed this conjunct1 [OF c1] conjunct2 [OF c1] months(1)]
    show ?thesis by (simp add: c2_def)
  next
    case False
    then show ?thesis using c1 by (simp add: c2_def)
  qed
  define c3 where "c3 = (if 0 < payInterPct cfg
      then arr_add64 c2 (payInterMonth cfg)
             (updateValueByINCC64 cfg (leg64 (payInterPct cfg) bp) (payInterMonth cfg))
      else c2)"
  have c3: "cells_all Q c3 \<and> length c3 = 24"
  proof (cases "0 < payInterPct cfg")
    case True
    then have m: "0 \<le> payInterMonth cfg" "payInterMonth cfg < 24"
      using months(2) by simp_all
    have "Q (updateValueByINCC64 cfg (leg64 (payInterPct cfg) bp) (payInterMonth cfg))"
      unfolding bp_def using True by (rule inter)
    from cells_arr_add64 [of Q, OF closed conjunct1 [OF c2] conjunct2 [OF c2] m this]
    show ?thesis using True by (simp add: c3_def)
  next
    case False
    then show ?thesis using c2 by (simp add: c3_def)
  qed
  have cf: "calcCashflowForUnit64 cfg u catIdx =
      arr_add64 c3 23 (updateValueByIPCA64 cfg (leg64 (payChavesPct cfg) bp) 23)"
    by (simp add: calcCashflowForUnit64_def Let_def c3_def c2_def c1_def e_def bp_def)
  have "Q (updateValueByIPCA64 cfg (leg64 (payChavesPct cfg) bp) 23)"
    unfolding bp_def by (rule chaves)
  from cells_arr_add64 [of Q, OF closed conjunct1 [OF c3] conjunct2 [OF c3] _ _ this, of 23]
  show ?thesis unfolding cf by simp
qed

lemma unit64_full:
  assumes "entradaMonths cfg \<le> 23"
    "0 < payInterPct cfg \<Longrightarrow> 0 \<le> payInterMonth cfg \<and> payInterMonth cfg \<le> 23"
  shows "length (calcCashflowForUnit64 cfg u catIdx) = 24 \<and>
     None \<notin> set (calcCashflowForUnit64 cfg u catIdx)"
proof -
  have "cells_all (\<lambda>_. True) (calcCashflowForUnit64 cfg u catIdx) \<and>
     length (calcCashflowForUnit64 cfg u catIdx) = 24"
    using assms by (intro unit64_cells) simp_all
  then show ?thesis by (auto dest: cells_no_hole)
qed

lemma unit_inflow:
  assumes pct: "0 \<le> entradaPct cfg" "0 \<le> payAtoPct cfg" "0 \<le> payInterPct cfg"
      "0 \<le> payChavesPct cfg"
    and disc: "discountPre cfg \<le> 100" "discountLaunch cfg \<le> 100"
    and rates: "- 1 \<le> incc cfg" "- 1 \<le> ipca cfg"
    and months: "entradaMonths cfg \<le> 23" "0 \<le> payInterMonth cfg" "payInterMonth cfg \<le> 23"
    and v: "0 \<le> valor u"
    and fin: "amounts_finite cfg u catIdx"
  shows "inflow_vector (calcCashflowForUnit64 cfg u catIdx) \<and>
     length (calcCashflowForUnit64 cfg u catIdx) = 24"
proof -
  define bp where "bp = applyDiscount64 cfg (valor u) catIdx"
  have f: "is_finite (leg64 (entradaPct cfg) bp)" "is_finite (leg64 (payAtoPct cfg) bp)"
    "is_finite (leg64 (payInterPct cfg) bp)" "is_finite (leg64 (payChavesPct cfg) bp)"
    "is_finite (factor64 (incc cfg) (payInterMonth cfg))" "is_finite (factor64 (ipca cfg) 23)"
    using fin by (simp_all add: amounts_finite_def bp_def)
  have "is_finite bp" using f(1) by (rule leg64_finiteD)
  then have bp: "jle (Fin 0) bp"
    unfolding bp_def using v disc by (intro applyDiscount64_nonneg)
  have legs: "jle (Fin 0) (leg64 (entradaPct cfg) bp)" "jle (Fin 0) (leg64 (payAtoPct cfg) bp)"
    "jle (Fin 0) (leg64 (payInterPct cfg) bp)" "jle (Fin 0) (leg64 (payChavesPct cfg) bp)"
    using pct bp f by (simp_all add: leg64_nonneg)
  have inter: "jle (Fin 0) (updateValueByINCC64 cfg (leg64 (payInterPct cfg) bp) (payInterMonth cfg))"
    unfolding updateValueByINCC64_def
    using legs(3) f(3,5) rates(1) months(2) by (intro fmul_nonneg factor64_nonneg)
  have chaves: "jle (Fin 0) (updateValueByIPCA64 cfg (leg64 (payChavesPct cfg) bp) 23)"
    unfolding updateValueByIPCA64_def
    using legs(4) f(4,6) rates(2) by (intro fmul_nonneg factor64_nonneg) simp_all
  have mensal: "jle (Fin 0) (fdiv (leg64 (entradaPct cfg) bp) (Fin (of_int (entradaMonths cfg))))"
    if "1 \<le> entradaMonths cfg"
    using legs(1) that by (intro fdiv_nonneg) simp_all
  show ?thesis
    unfolding inflow_vector_def
    using months legs(2) mensal inter chaves
    by (intro unit64_cells fadd_nonneg) (simp_all add: bp_def)
qed

lemma foldl_fadd_nonneg:
  "jle (Fin 0) z \<Longrightarrow> \<forall>x\<in>set xs. jle (Fin 0) x \<Longrightarrow> jle (Fin 0) (foldl fadd z xs)"
  by (induction xs arbitrary: z) (simp_all add: fadd_nonneg)

lemma aggregate_inflow:
  assumes "\<forall>v\<in>set vs. inflow_vector v \<and> length v = 24"
  shows "inflow_vector (aggregate_with fadd vs) \<and> length (aggregate_with fadd vs) = 24"
proof -
  have full: "\<forall>v\<in>set vs. length v = 24 \<and> None \<notin> set v"
    using assms cells_no_hole unfolding inflow_vector_def by blast
  have len: "length (aggregate_with fadd vs) = 24"
    by (rule aggregate_cell(1) [OF full])
  have "\<exists>v. aggregate_with fadd vs ! m = Some v \<and> jle (Fin 0) v" if m: "m < 24" for m
  proof -
    have "\<forall>x\<in>set (map (\<lambda>v. arr_get v m) vs). jle (Fin 0) x"
      using assms m by (auto intro: cells_arr_get simp: inflow_vector_def)
    then have "jle (Fin 0) (foldl fadd (Fin 0) (map (\<lambda>v. arr_get v m) vs))"
      by (intro foldl_fadd_nonneg) simp_all
    then show ?thesis
      by (simp add: aggregate_cell(2) [OF full m])
  qed
  then show ?thesis
    using len by (simp add: inflow_vector_def cells_all_nth)
qed

lemma math_min_nonneg:
  "jle (Fin 0) m \<Longrightarrow> \<forall>x\<in>set xs. jle (Fin 0) x \<Longrightarrow>
   jle (Fin 0)
     (foldl (\<lambda>m x. if m = NaN \<or> x = NaN then NaN else if jlt x m then x else m) m xs)"
proof (induction xs arbitrary: m)
  case Nil
  then show ?case by simp
next
  case (Cons x xs)
  then have "jle (Fin 0) x" "jle (Fin 0) m" by simp_all
  then have "m \<noteq> NaN" "x \<noteq> NaN" by auto
  with Cons show ?case by simp
qed

lemma calcROI_inflow:
  assumes "inflow_vector a"
  shows "calcROI a = RoiNumber 0"
proof -
  have "\<forall>x\<in>set (spread a). jle (Fin 0) x"
    using assms
    by (auto simp: spread_def inflow_vector_def cells_all_def list_all_iff split: option.splits)
  then have "jle (Fin 0) (math_min (spread a))"
    unfolding math_min_def by (intro math_min_nonneg) simp_all
  then have "jle (jneg (math_min (spread a))) (Fin 0)"
    by (cases "math_min (spread a)") simp_all
  then show ?thesis by (simp add: calcROI_def Let_def)
qed

lemma calcPayback_inflow:
  assumes "inflow_vector a" "a \<noteq> []"
  shows "calcPayback a = 0"
proof -
  have len: "0 < length a" using assms(2) by simp
  have "cells_all (jle (Fin 0)) a" using assms(1) by (simp add: inflow_vector_def)
  then have "jle (Fin 0) (arr_get a 0)"
    using len by (rule cells_arr_get)
  then have "jle (Fin 0) (jadd (Fin 0) (arr_get a 0))"
    by (cases "arr_get a 0") simp_all
  then show ?thesis
    unfolding calcPayback_def using len by (subst payback_loop.simps) simp
qed

section \<open>Amounts that do not overflow\<close>

lemma fraction_bounded:
  assumes "\<bar>p\<bar> \<le> 1024"
  shows "\<exists>y. fdiv (Fin p) (Fin 100) = Fin y \<and> \<bar>y\<bar> \<le> 2048"
proof -
  have q: "fdiv (Fin p) (Fin 100) = binary64 (p / 100)" by (simp add: fdiv_def)
  have "\<bar>p / 100\<bar> \<le> 1024" using assms by simp
  from binary64_finite [OF this] show ?thesis unfolding q by simp
qed

lemma discount_factor_bounded:
  assumes "\<bar>d\<bar> \<le> 1024"
  shows "\<exists>y. fsub (Fin 1) (fdiv (Fin d) (Fin 100)) = Fin y \<and> \<bar>y\<bar> \<le> 8192"
proof -
  from fraction_bounded [OF assms] obtain q
    where q: "fdiv (Fin d) (Fin 100) = Fin q" "\<bar>q\<bar> \<le> 2048" by blast
  have s: "fsub (Fin 1) (Fin q) = binary64 (1 + - q)" by (simp add: fsub_def)
  have "\<bar>1 + - q\<bar> \<le> 4096" using q(2) by simp
  from binary64_finite [OF this] show ?thesis unfolding q(1) s by simp
qed

lemma fmul_bounded:
  assumes "\<bar>x\<bar> \<le> A" "\<bar>y\<bar> \<le> B" "1 \<le> A * B" "A * B \<le> 2 ^ 1022"
  shows "\<exists>z. fmul (Fin x) (Fin y) = Fin z \<and> \<bar>z\<bar> \<le> 2 * (A * B)"
proof -
  have "\<bar>x\<bar> * \<bar>y\<bar> \<le> A * B"
    using assms(1,2) by (intro mult_mono) simp_all
  then have "\<bar>x * y\<bar> \<le> A * B" by (simp add: abs_mult)
  from binary64_finite [OF this assms(3,4)] show ?thesis by (simp add: fmul_Fin)
qed

lemma applyDiscount64_bounded:
  assumes "\<bar>v\<bar> \<le> 2 ^ 100" "\<bar>discountPre cfg\<bar> \<le> 1024" "\<bar>discountLaunch cfg\<bar> \<le> 1024"
  shows "\<exists>y. applyDiscount64 cfg v catIdx = Fin y \<and> \<bar>y\<bar> \<le> 2 ^ 114"
proof -
  have m: "\<exists>y. fmul (Fin v) (fsub (Fin 1) (fdiv (Fin d) (Fin 100))) = Fin y \<and> \<bar>y\<bar> \<le> 2 ^ 114"
    if "\<bar>d\<bar> \<le> 1024" for d
  proof -
    from discount_factor_bounded [OF that] obtain f
      where f: "fsub (Fin 1) (fdiv (Fin d) (Fin 100)) = Fin f" "\<bar>f\<bar> \<le> 8192" by blast
    from fmul_bounded [OF assms(1) f(2)] show ?thesis unfolding f(1) by simp
  qed
  have "\<bar>v\<bar> \<le> 2 ^ 114" using assms(1) by simp
  then show ?thesis
    using m [OF assms(2)] m [OF assms(3)] by (simp add: applyDiscount64_def)
qed

lemma leg64_finite:
  assumes "\<bar>p\<bar> \<le> 1024" "bp = Fin y" "\<bar>y\<bar> \<le> 2 ^ 114"
  shows "is_finite (leg64 p bp)"
proof -
  from fraction_bounded [OF assms(1)] obtain q
    where q: "fdiv (Fin p) (Fin 100) = Fin q" "\<bar>q\<bar> \<le> 2048" by blast
  from fmul_bounded [OF q(2) assms(3)] show ?thesis
    unfolding leg64_def q(1) assms(2) by (auto simp: is_finite_iff)
qed

lemma factor64_finite:
  assumes "\<bar>rate\<bar> \<le> 1024" "0 \<le> m" "m \<le> 23"
  shows "is_finite (factor64 rate m)"
proof (cases "m = 0")
  case True
  then show ?thesis by (simp add: factor64_def fpow_def is_finite_def)
next
  case False
  have "\<bar>1 + rate\<bar> \<le> 2048" using assms(1) by simp
  from binary64_finite [OF this] obtain x
    where x: "binary64 (1 + rate) = Fin x" "\<bar>x\<bar> \<le> 4096" by auto
  have f: "factor64 rate m = binary64 (x ^ nat m)"
    using False assms(2) x(1) by (simp add: factor64_def fadd_def fpow_def jpow_def)
  define a where "a = max \<bar>x\<bar> 1"
  have a: "\<bar>x\<bar> \<le> a" "1 \<le> a" "a \<le> 4096" using x(2) by (simp_all add: a_def)
  have "\<bar>x ^ nat m\<bar> = \<bar>x\<bar> ^ nat m" by (simp add: power_abs)
  also have "\<dots> \<le> a ^ nat m" using a(1) by (intro power_mono) simp_all
  also have "\<dots> \<le> a ^ 23" using a(2) assms(3) by (intro power_increasing) simp_all
  also have "\<dots> \<le> 4096 ^ 23" using a(2,3) by (intro power_mono) simp_all
  finally have "\<bar>x ^ nat m\<bar> \<le> 4096 ^ 23" .
  from binary64_finite [OF this] show ?thesis unfolding f by (auto simp: is_finite_iff)
qed

lemma amounts_finite_small:
  assumes "\<bar>valor u\<bar> \<le> 2 ^ 100"
    and "\<bar>discountPre cfg\<bar> \<le> 1024" "\<bar>discountLaunch cfg\<bar> \<le> 1024"
    and "\<bar>entradaPct cfg\<bar> \<le> 1024" "\<bar>payAtoPct cfg\<bar> \<le> 1024"
      "\<bar>payInterPct cfg\<bar> \<le> 1024" "\<bar>payChavesPct cfg\<bar> \<le> 1024"
    and "\<bar>incc cfg\<bar> \<le> 1024" "\<bar>ipca cfg\<bar> \<le> 1024"
    and "0 \<le> payInterMonth cfg" "payInterMonth cfg \<le> 23"
  shows "amounts_finite cfg u catIdx"
proof -
  from applyDiscount64_bounded [OF assms(1,2,3)] obtain y
    where y: "applyDiscount64 cfg (valor u) catIdx = Fin y" "\<bar>y\<bar> \<le> 2 ^ 114" by blast
  show ?thesis
    unfolding amounts_finite_def
    using leg64_finite [OF assms(4) y] leg64_finite [OF assms(5) y]
      leg64_finite [OF assms(6) y] leg64_finite [OF assms(7) y]
      factor64_finite [OF assms(8,10,11)] factor64_finite [OF assms(9), of 23]
    by simp
qed

section \<open>An escalation factor that overflows\<close>

lemma fmul_zero: "fmul (Fin 0) b = Fin 0 \<or> fmul (Fin 0) b = NaN"
  by (cases b) (simp_all add: fmul_def binary64_def)

lemma leg64_zero: "leg64 0 b = Fin 0 \<or> leg64 0 b = NaN"
  using fmul_zero [of b] by (simp add: leg64_def fdiv_def binary64_def)

lemma fadd_NaN: "fadd a NaN = NaN"
  by (cases a) (simp_all add: fadd_def)

lemma foldl_fadd_NaN: "NaN \<in> set xs \<Longrightarrow> foldl fadd a xs = NaN"
proof (induction xs arbitrary: a)
  case Nil
  then show ?case by simp
next
  case (Cons x xs)
  have n: "foldl fadd NaN ys = NaN" for ys
    by (induction ys) (simp_all add: fadd_def)
  show ?case
  proof (cases "x = NaN")
    case True
    then show ?thesis by (simp add: fadd_NaN n)
  next
    case False
    then show ?thesis using Cons by simp
  qed
qed

lemma math_min_NaN: "NaN \<in> set xs \<Longrightarrow> math_min xs = NaN"
proof -
  let ?f = "\<lambda>m x. if m = NaN \<or> x = NaN then NaN else if jlt x m then x else m"
  have n: "foldl ?f NaN ys = NaN" for ys by (induction ys) simp_all
  have "NaN \<in> set xs \<Longrightarrow> foldl ?f m xs = NaN" for m
  proof (induction xs arbitrary: m)
    case Nil
    then show ?case by simp
  next
    case (Cons x xs)
    show ?case
    proof (cases "x = NaN")
      case True
      then show ?thesis by (simp add: n)
    next
      case False
      then show ?thesis using Cons by simp
    qed
  qed
  then show "NaN \<in> set xs \<Longrightarrow> math_min xs = NaN" by (simp add: math_min_def)
qed

lemma calcROI_NaN:
  assumes "Some NaN \<in> set a"
  shows "calcROI a = RoiText NaN"
proof -
  have "NaN \<in> set (spread a)"
    using assms by (force simp: spread_def)
  then have m: "math_min (spread a) = NaN" by (rule math_min_NaN)
  have d: "jdiv t NaN = NaN" for t by (cases t) simp_all
  show ?thesis by (simp add: calcROI_def Let_def m d)
qed

lemma nth_arr_add64_same:
  "is_array_index i \<Longrightarrow> arr_add64 a i v ! nat i = Some (fadd (arr_get a (nat i)) v)"
  by (simp add: arr_add64_def nth_arr_set)

lemma factor64_overflow: "factor64 100000000000000 23 = PInf"
proof -
  have "binary64 (of_int 100000000000001) = Fin (of_int 100000000000001)"
    by (rule binary64_of_int) simp
  then have b: "fadd (Fin 1) (Fin 100000000000000) = Fin 100000000000001"
    by (simp add: fadd_def)
  have "(2::real) ^ 1024 \<le> 100000000000001 ^ 23" by simp
  then have "binary64 (100000000000001 ^ 23) = PInf" by (rule binary64_overflow)
  then show ?thesis by (simp add: factor64_def b fpow_def jpow_def)
qed

lemma overflow_month_23:
  "calcCashflowForUnit64 overflow_config u catIdx ! 23 = Some NaN"
proof -
  define bp where "bp = applyDiscount64 overflow_config (valor u) catIdx"
  have p: "payChavesPct overflow_config = 0" "ipca overflow_config = 100000000000000"
    by (simp_all add: overflow_config_def default_config_def)
  have "fmul (leg64 0 bp) PInf = NaN"
    using leg64_zero [of bp] by (auto simp: fmul_def)
  then have ch: "updateValueByIPCA64 overflow_config (leg64 (payChavesPct overflow_config) bp) 23 = NaN"
    by (simp add: updateValueByIPCA64_def p factor64_overflow)
  obtain c where "calcCashflowForUnit64 overflow_config u catIdx =
      arr_add64 c 23 (updateValueByIPCA64 overflow_config
        (leg64 (payChavesPct overflow_config) bp) 23)"
    by (simp add: calcCashflowForUnit64_def Let_def bp_def)
  then have "calcCashflowForUnit64 overflow_config u catIdx = arr_add64 c 23 NaN"
    by (simp only: ch)
  moreover have "arr_add64 c 23 NaN ! nat 23 = Some (fadd (arr_get c (nat 23)) NaN)"
    by (rule nth_arr_add64_same) (simp add: is_array_index_def)
  ultimately show ?thesis by (simp add: fadd_NaN)
qed

lemma overflow_allFlows:
  assumes "units \<noteq> []"
  shows "length (allFlows64 overflow_config units) = 24"
    and "allFlows64 overflow_config units ! 23 = Some NaN"
proof -
  have m: "entradaMonths overflow_config \<le> 23" "\<not> 0 < payInterPct overflow_config"
    by (simp_all add: overflow_config_def default_config_def)
  have u: "length (calcCashflowForUnit64 overflow_config u i) = 24 \<and>
      None \<notin> set (calcCashflowForUnit64 overflow_config u i)" for u i
    using m by (intro unit64_full) simp_all
  have f: "\<forall>v\<in>set (unit_flows64 overflow_config units). length v = 24 \<and> None \<notin> set v"
    unfolding unit_flows64_def using u by auto
  show "length (allFlows64 overflow_config units) = 24"
    unfolding allFlows64_def using f by (rule aggregate_cell(1))
  obtain v where v: "v \<in> set (unit_flows64 overflow_config units)"
    using assms by (cases units) (auto simp: unit_flows64_def)
  then have "v ! 23 = Some NaN" "length v = 24"
    using f by (auto simp: unit_flows64_def overflow_month_23)
  then have "arr_get v 23 = NaN" by (simp add: arr_get_def)
  with v have "NaN \<in> set (map (\<lambda>v. arr_get v 23) (unit_flows64 overflow_config units))"
    by force
  then have "foldl fadd (Fin 0) (map (\<lambda>v. arr_get v 23) (unit_flows64 overflow_config units)) = NaN"
    by (rule foldl_fadd_NaN)
  moreover have "allFlows64 overflow_config units ! 23 =
      Some (foldl fadd (Fin 0) (map (\<lambda>v. arr_get v 23) (unit_flows64 overflow_config units)))"
    unfolding allFlows64_def using f by (rule aggregate_cell(2)) simp
  ultimately show "allFlows64 overflow_config units ! 23 = Some NaN" by simp
qed

section \<open>A unit of negative value\<close>

lemma arr_get_paid_at_signing:
  "k < 24 \<Longrightarrow> arr_get (paid_at_signing x) k = Fin (if k = 0 then x else 0)"
  by (simp add: paid_at_signing_def arr_get_def nth_Cons')

lemma nth_paid_at_signing:
  "k < 24 \<Longrightarrow> paid_at_signing x ! k = Some (Fin (if k = 0 then x else 0))"
  by (simp add: paid_at_signing_def nth_Cons')

lemma paid_at_signing_add_zero:
  assumes "binary64 x = Fin x" "0 \<le> i" "i < 24"
  shows "arr_add64 (paid_at_signing x) i (Fin 0) = paid_at_signing x"
proof -
  have k: "nat i < 24" "is_array_index i" using assms(2,3) by (simp_all add: is_array_index_def)
  have len: "length (paid_at_signing x) = 24" by (simp add: paid_at_signing_def)
  have "fadd (arr_get (paid_at_signing x) (nat i)) (Fin 0) = Fin (if nat i = 0 then x else 0)"
    using assms(1) by (simp add: arr_get_paid_at_signing [OF k(1)] fadd_def binary64_0)
  then have "Some (fadd (arr_get (paid_at_signing x) (nat i)) (Fin 0)) = paid_at_signing x ! nat i"
    by (simp only: nth_paid_at_signing [OF k(1)])
  moreover have "arr_add64 (paid_at_signing x) i (Fin 0) =
      (paid_at_signing x)[nat i := Some (fadd (arr_get (paid_at_signing x) (nat i)) (Fin 0))]"
    using k len by (simp add: arr_add64_def arr_set_def)
  ultimately show ?thesis by (simp only: list_update_id)
qed

lemma paid_at_signing_fold_zero:
  assumes "binary64 x = Fin x"
  shows "n \<le> 23 \<Longrightarrow>
     foldl (\<lambda>cf m. arr_add64 cf m (Fin 0)) (paid_at_signing x) [1..n] = paid_at_signing x"
proof (induction "nat n" arbitrary: n)
  case 0
  then have "n \<le> 0" by simp
  then show ?case by simp
next
  case (Suc j)
  then have n: "1 \<le> n" "j = nat (n - 1)" "n - 1 \<le> 23" by auto
  have "0 \<le> n" "n < 24" using n(1) Suc.prems by simp_all
  from paid_at_signing_add_zero [OF assms this] show ?case
    by (simp add: upto_snoc [OF n(1)] Suc.hyps(1) [OF n(2,3)])
qed

lemma paid_at_signing_first:
  assumes "binary64 x = Fin x"
  shows "arr_add64 (replicate 24 (Some (Fin 0))) 0 (Fin x) = paid_at_signing x"
proof -
  have "arr_add64 (replicate 24 (Some (Fin 0))) 0 (Fin x) =
      (replicate 24 (Some (Fin 0)))[0 := Some (Fin x)]"
    using assms by (simp add: arr_add64_def arr_set_def arr_get_def is_array_index_def fadd_def)
  also have "\<dots> = paid_at_signing x"
    by (intro nth_equalityI) (auto simp: paid_at_signing_def nth_list_update nth_Cons')
  finally show ?thesis .
qed

lemma paid_at_signing_flow64:
  assumes "\<bar>n\<bar> < 2 ^ 53" "valor u = of_int n" "catIdx < 2"
  shows "calcCashflowForUnit64 signing_config u catIdx = paid_at_signing (valor u)"
proof -
  have r: "binary64 (valor u) = Fin (valor u)"
    unfolding assms(2) using assms(1) by (rule binary64_of_int)
  have one: "binary64 1 = Fin 1"
    using binary64_of_int [of 1] by simp
  have c: "entradaPct signing_config = 0" "payAtoPct signing_config = 100"
    "payInterPct signing_config = 0" "payChavesPct signing_config = 0"
    "entradaMonths signing_config = 6" "discountPre signing_config = 0"
    "preLaunchMonths signing_config = 2" "ipca signing_config = 5 / 1000"
    by (simp_all add: signing_config_def default_config_def)
  have bp: "applyDiscount64 signing_config (valor u) catIdx = Fin (valor u)"
    using assms(3) by (simp add: applyDiscount64_def c fdiv_def fsub_def fmul_def binary64_0 one r)
  have l0: "leg64 0 (Fin (valor u)) = Fin 0"
    by (simp add: leg64_def fdiv_def fmul_def binary64_0)
  have l100: "leg64 100 (Fin (valor u)) = Fin (valor u)"
    by (simp add: leg64_def fdiv_def fmul_def one r)
  have e: "fdiv (Fin 0) (Fin 6) = Fin 0"
    by (simp add: fdiv_def binary64_0)
  have "is_finite (factor64 (5 / 1000) 23)"
    by (rule factor64_finite) simp_all
  then obtain f where "factor64 (5 / 1000) 23 = Fin f" by (auto simp: is_finite_iff)
  then have ch: "updateValueByIPCA64 signing_config (Fin 0) 23 = Fin 0"
    by (simp add: updateValueByIPCA64_def c fmul_def binary64_0)
  have "calcCashflowForUnit64 signing_config u catIdx =
     arr_add64 (foldl (\<lambda>cf m. arr_add64 cf m (Fin 0))
        (arr_add64 (replicate 24 (Some (Fin 0))) 0 (Fin (valor u))) [1..6]) 23 (Fin 0)"
    by (simp add: calcCashflowForUnit64_def Let_def c bp l0 l100 e ch)
  also have "\<dots> = paid_at_signing (valor u)"
    by (simp only: paid_at_signing_first [OF r] paid_at_signing_fold_zero [OF r, of 6, simplified]
        paid_at_signing_add_zero [OF r, of 23, simplified])
  finally show ?thesis .
qed

lemma aggregate_single64:
  assumes "binary64 x = Fin x"
  shows "aggregate_with fadd [paid_at_signing x] = paid_at_signing x"
proof (rule nth_equalityI)
  have f: "\<forall>v\<in>set [paid_at_signing x]. length v = 24 \<and> None \<notin> set v"
    by (simp add: paid_at_signing_full)
  show l: "length (aggregate_with fadd [paid_at_signing x]) = length (paid_at_signing x)"
    using aggregate_cell(1) [OF f, of fadd] by (simp add: paid_at_signing_def)
  fix m assume "m < length (aggregate_with fadd [paid_at_signing x])"
  then have m: "m < 24" using l by (simp add: paid_at_signing_def)
  have "aggregate_with fadd [paid_at_signing x] ! m =
      Some (fadd (Fin 0) (arr_get (paid_at_signing x) m))"
    using aggregate_cell(2) [OF f m, of fadd] by simp
  also have "\<dots> = Some (Fin (if m = 0 then x else 0))"
    using assms by (simp add: arr_get_paid_at_signing [OF m] fadd_def binary64_0)
  also have "\<dots> = paid_at_signing x ! m"
    by (simp only: nth_paid_at_signing [OF m])
  finally show "aggregate_with fadd [paid_at_signing x] ! m = paid_at_signing x ! m" .
qed

lemma paid_at_signing_finite: "paid_at_signing x = map (Some \<circ> Fin) (x # replicate 23 0)"
  by (simp add: paid_at_signing_def)

lemma debt_roi: "calcROI (paid_at_signing (- 300000)) = RoiFixed True 10000"
proof -
  have s: "set ((- 300000 :: real) # replicate 23 0) = {- 300000, 0}" by auto
  have "Min {- 300000, 0 :: real} = - 300000" by simp
  then show ?thesis
    unfolding paid_at_signing_finite
    by (subst calcROI_finite) (simp_all add: s sum_list_replicate)
qed

lemma debt_payback: "calcPayback (paid_at_signing (- 300000)) = 24"
proof -
  let ?a = "paid_at_signing (- 300000)"
  have c: "cumulative ?a j = Fin (- 300000)" if "j < 24" for j
  proof -
    have "sum_list (take (Suc j) ((- 300000 :: real) # replicate 23 0)) = - 300000"
      by (simp add: sum_list_replicate)
    then show ?thesis
      unfolding paid_at_signing_finite using that by (subst cumulative_finite) simp_all
  qed
  have l: "length ?a = 24" by (simp add: paid_at_signing_def)
  from payback_loop_spec [of 0 ?a "Fin 0"]
  have p: "payback_loop ?a 0 (Fin 0) \<le> 24"
    "payback_loop ?a 0 (Fin 0) < 24 \<longrightarrow> jle (Fin 0) (cumulative ?a (payback_loop ?a 0 (Fin 0)))"
    by (simp_all add: l)
  have "\<not> payback_loop ?a 0 (Fin 0) < 24"
  proof
    assume lt: "payback_loop ?a 0 (Fin 0) < 24"
    with p(2) c [OF lt] show False by simp
  qed
  with p(1) show ?thesis by (simp add: calcPayback_def)
qed

section \<open>Inflows only\<close>

text \<open>
  Claim C10, amended. Let the configuration be within the bounds of the claim
  (\<open>inflow_config\<close>: the four percentages are at least 0, both discounts at most 100,
  both rates at least \<open>-1\<close>, \<^verbatim>\<open>entradaMonths\<close> at most 23 and \<^verbatim>\<open>payInterMonth\<close> from 0 to
  23). Two more conditions are needed: the value of the unit is at least 0, and no amount
  overflows (\<open>amounts_finite\<close>: the four amounts \<^verbatim>\<open>(pct / 100) * basePrice\<close> and the two
  escalation factors \<^verbatim>\<open>Math.pow(1 + incc, payInterMonth)\<close> and \<^verbatim>\<open>Math.pow(1 + ipca, 23)\<close>
  are finite Numbers). Then, in binary64 arithmetic, the vector of the unit has 24
  entries, each of them at least 0 (a finite Number from 0 on, or \<^verbatim>\<open>Infinity\<close>; never
  \<^verbatim>\<open>NaN\<close>, never negative). When this holds for every unit of the list, the aggregate
  vector has 24 entries that are at least 0, \<^verbatim>\<open>calcROI\<close> returns the Number 0 through its
  guard, and \<^verbatim>\<open>calcPayback\<close> returns 0.

  On this path \<^verbatim>\<open>calcROI\<close> only takes \<^verbatim>\<open>Math.min\<close>, negates it and compares it with 0,
  and \<^verbatim>\<open>calcPayback\<close> only adds \<^verbatim>\<open>flows[0]\<close> to 0 and compares: none of these steps rounds.
  By \<open>amounts_finite_small\<close>, no amount overflows as soon as the unit value is at most
  \<open>2^100\<close> and the percentages, discounts and rates are at most 1024 in absolute value.
\<close>

theorem inflows_without_overflow:
  assumes "inflow_config cfg"
  shows "(0 \<le> valor u \<and> amounts_finite cfg u catIdx \<longrightarrow>
      length (calcCashflowForUnit64 cfg u catIdx) = 24 \<and>
      inflow_vector (calcCashflowForUnit64 cfg u catIdx)) \<and>
     ((\<forall>(idx, u)\<in>set (enumerate 0 units). 0 \<le> valor u \<and> amounts_finite cfg u (int idx)) \<longrightarrow>
      length (allFlows64 cfg units) = 24 \<and>
      inflow_vector (allFlows64 cfg units) \<and>
      calcROI (allFlows64 cfg units) = RoiNumber 0 \<and>
      calcPayback (allFlows64 cfg units) = 0)"
proof (intro conjI impI)
  note c = assms [unfolded inflow_config_def]
  assume "0 \<le> valor u \<and> amounts_finite cfg u catIdx"
  then have "inflow_vector (calcCashflowForUnit64 cfg u catIdx) \<and>
     length (calcCashflowForUnit64 cfg u catIdx) = 24"
    using c by (intro unit_inflow) simp_all
  then show "length (calcCashflowForUnit64 cfg u catIdx) = 24"
    and "inflow_vector (calcCashflowForUnit64 cfg u catIdx)"
    by simp_all
next
  note c = assms [unfolded inflow_config_def]
  assume a: "\<forall>(idx, u)\<in>set (enumerate 0 units). 0 \<le> valor u \<and> amounts_finite cfg u (int idx)"
  have "\<forall>v\<in>set (unit_flows64 cfg units). inflow_vector v \<and> length v = 24"
  proof
    fix v assume "v \<in> set (unit_flows64 cfg units)"
    then obtain idx u where iu: "(idx, u) \<in> set (enumerate 0 units)"
      and v: "v = calcCashflowForUnit64 cfg u (int idx)"
      unfolding unit_flows64_def by auto
    from a iu have "0 \<le> valor u" "amounts_finite cfg u (int idx)" by auto
    then show "inflow_vector v \<and> length v = 24"
      unfolding v using c by (intro unit_inflow) simp_all
  qed
  then have agg: "inflow_vector (allFlows64 cfg units) \<and> length (allFlows64 cfg units) = 24"
    unfolding allFlows64_def by (rule aggregate_inflow)
  then show "inflow_vector (allFlows64 cfg units)" "length (allFlows64 cfg units) = 24"
    by simp_all
  from agg show "calcROI (allFlows64 cfg units) = RoiNumber 0"
    by (intro calcROI_inflow) simp
  from agg have "allFlows64 cfg units \<noteq> []" by auto
  with agg show "calcPayback (allFlows64 cfg units) = 0"
    by (intro calcPayback_inflow) simp_all
qed

theorem inflows_without_overflow_witness:
  "inflow_config scenario_config \<and> amounts_finite scenario_config apto101 0 \<and>
   inflow_vector (calcCashflowForUnit64 scenario_config apto101 0) \<and>
   inflow_vector (allFlows64 scenario_config loadUnits) \<and>
   calcROI (allFlows64 scenario_config loadUnits) = RoiNumber 0 \<and>
   calcPayback (allFlows64 scenario_config loadUnits) = 0"
proof -
  have c: "inflow_config scenario_config"
    by (simp add: inflow_config_def scenario_config_def default_config_def)
  have f: "amounts_finite scenario_config u i" if "\<bar>valor u\<bar> \<le> 500000" for u i
  proof (rule amounts_finite_small)
    show "\<bar>valor u\<bar> \<le> 2 ^ 100" using that by simp
  qed (simp_all add: scenario_config_def default_config_def)
  have v: "valor apto101 = 300000" "valor apto102 = 320000" "valor cobertura201 = 500000"
    by (simp_all add: apto101_def apto102_def cobertura201_def)
  have a: "\<forall>(idx, u)\<in>set (enumerate 0 loadUnits).
      0 \<le> valor u \<and> amounts_finite scenario_config u (int idx)"
    by (simp add: loadUnits_def v f)
  have b: "0 \<le> valor apto101 \<and> amounts_finite scenario_config apto101 0"
    by (simp add: v f)
  note t = inflows_without_overflow [OF c, of apto101 0 loadUnits]
  from t [THEN conjunct1, THEN mp, OF b] t [THEN conjunct2, THEN mp, OF a] b c
  show ?thesis by simp
qed

text \<open>
  Claim C10 as stated fails in two ways. With an IPCA rate of \<open>10^14\<close> the initial
  configuration is within all the bounds of the claim, but \<^verbatim>\<open>Math.pow(1 + ipca, 23)\<close>
  overflows to \<^verbatim>\<open>Infinity\<close> and the delivery payment of line 105 is
  \<^verbatim>\<open>0 * Infinity = NaN\<close>: month 23 of every unit and of the aggregate holds \<^verbatim>\<open>NaN\<close>,
  \<^verbatim>\<open>Math.min\<close> is \<^verbatim>\<open>NaN\<close>, the guard of \<^verbatim>\<open>calcROI\<close> is false and the function returns
  the string \<^verbatim>\<open>NaN\<close>. And the claim does not bound the values of the units: a unit of
  value \<open>-300000\<close> paid in full at signing has the flow \<open>-300000\<close> at month 0, for which
  \<^verbatim>\<open>calcROI\<close> returns \<^verbatim>\<open>-100.00\<close> and \<^verbatim>\<open>calcPayback\<close> returns 24.
\<close>

theorem inflows_only_counterexample:
  "inflow_config overflow_config \<and>
   calcCashflowForUnit64 overflow_config apto101 0 ! 23 = Some NaN \<and>
   allFlows64 overflow_config loadUnits ! 23 = Some NaN \<and>
   calcROI (allFlows64 overflow_config loadUnits) = RoiText NaN \<and>
   inflow_config signing_config \<and>
   calcCashflowForUnit64 signing_config debt_unit 0 = paid_at_signing (- 300000) \<and>
   allFlows64 signing_config [debt_unit] = paid_at_signing (- 300000) \<and>
   calcROI (allFlows64 signing_config [debt_unit]) = RoiFixed True 10000 \<and>
   calcPayback (allFlows64 signing_config [debt_unit]) = 24"
proof -
  have c: "inflow_config overflow_config" "inflow_config signing_config"
    by (simp_all add: inflow_config_def overflow_config_def signing_config_def default_config_def)
  have ne: "loadUnits \<noteq> []" by (simp add: loadUnits_def)
  note o = overflow_allFlows [OF ne]
  have "allFlows64 overflow_config loadUnits ! 23 \<in> set (allFlows64 overflow_config loadUnits)"
    using o(1) by (intro nth_mem) simp
  then have "Some NaN \<in> set (allFlows64 overflow_config loadUnits)"
    by (simp only: o(2))
  then have roi: "calcROI (allFlows64 overflow_config loadUnits) = RoiText NaN"
    by (rule calcROI_NaN)
  have v: "valor debt_unit = of_int (- 300000)" by (simp add: debt_unit_def)
  have d: "calcCashflowForUnit64 signing_config debt_unit 0 = paid_at_signing (- 300000)"
    using paid_at_signing_flow64 [OF _ v, of 0] by (simp add: debt_unit_def)
  have r: "binary64 (- 300000) = Fin (- 300000)"
    using binary64_of_int [of "- 300000"] by simp
  have all: "allFlows64 signing_config [debt_unit] = paid_at_signing (- 300000)"
    by (simp add: allFlows64_def unit_flows64_def d aggregate_single64 [OF r])
  show ?thesis
    by (simp only: c overflow_month_23 o(2) roi d all debt_roi debt_payback simp_thms)
qed

end
